theory Spec2Isabelle
  imports Main "HOL-Library.Sublist"
begin

section \<open>Strings and numbers of the host language\<close>

text \<open>
  A TypeScript string is a sequence of UTF-16 code units; it is modelled as the list of
  its code units, each an integer. Numbers that the pipeline handles (tokens, depths,
  ranks, centipawn scores, top-N settings) are integers on the wire and are modelled as
  \<open>int\<close>. An optional or nullable field (\<open>x?: T | null\<close>) is an \<open>option\<close>.
\<close>

type_synonym jstring = "int list"

definition js :: "string \<Rightarrow> jstring" where
  "js s = map of_char s"

section \<open>Analysis State Machine (features/chess/analysis-arrow-state.ts)\<close>

subsection \<open>Wire types (features/chess/types)\<close>

record LineArrow =
  uci :: jstring
  from_square :: jstring
  to_square :: jstring
  color_slot :: int

record StockfishPVLine =
  rank :: int
  san :: "jstring option"
  cp :: "int option"
  mate :: "int option"
  arrow :: LineArrow
  pv :: "jstring list"

text \<open>
  The discriminated union \<open>StockfishStreamEvent\<close>, tagged by its \<open>type\<close> field. The last
  constructor stands for a payload whose tag is none of the three: the payload is the
  result of a cast of parsed JSON, and the reducer guards against it.
\<close>

datatype StockfishStreamEvent =
    depth_update
      (analysis_id: jstring) (fen: jstring) (side_to_move: jstring) (depth: int)
      (multipv: int) (bestmove_uci: "jstring option") (lines: "StockfishPVLine list")
      (generated_at: jstring)
  | analysis_complete
      (analysis_id: jstring) (fen: jstring) (final_depth: int)
      (bestmove_uci: "jstring option") (lines: "StockfishPVLine list")
      (reason: jstring) (generated_at: jstring)
  | analysis_error
      (error_analysis_id: "jstring option") (code: jstring) (message: jstring)
      (retryable: bool) (generated_at: jstring)
  | other_event (type_tag: jstring)

subsection \<open>State\<close>

record AnalysisBoardArrow =
  arrow_from_square :: jstring
  arrow_to_square :: jstring
  arrow_color_slot :: int
  arrow_rank :: int
  arrow_uci :: jstring
  arrow_cp :: "int option"
  arrow_mate :: "int option"

record AnalysisArrowSession =
  streamToken :: int
  targetFen :: jstring
  analysisId :: "jstring option"
  minDepth :: int
  warmupDepthCount :: int
  warmupTopN :: int
  steadyTopN :: int

record AnalysisArrowSnapshot =
  snapshot_targetFen :: jstring
  snapshot_analysisId :: jstring
  snapshot_depth :: int
  arrows :: "AnalysisBoardArrow list"
  updatedAtMs :: int

datatype AnalysisStreamStatus = idle | streaming | closed

record AnalysisArrowState =
  status :: AnalysisStreamStatus
  session :: "AnalysisArrowSession option"
  snapshot :: "AnalysisArrowSnapshot option"
  events :: "StockfishStreamEvent list"
  lastError :: "jstring option"

datatype AnalysisArrowAction =
    start_session int jstring int int int int
  | stop_session int AnalysisStreamStatus
  | reset_for_board_change
  | local_error jstring
  | ingest_stream_event int StockfishStreamEvent

subsection \<open>Helpers\<close>

definition mapLineToBoardArrow :: "StockfishPVLine \<Rightarrow> AnalysisBoardArrow" where
  "mapLineToBoardArrow line =
     \<lparr> arrow_from_square = from_square (arrow line),
       arrow_to_square = to_square (arrow line),
       arrow_color_slot = color_slot (arrow line),
       arrow_rank = rank line,
       arrow_uci = uci (arrow line),
       arrow_cp = cp line,
       arrow_mate = mate line \<rparr>"

fun isDepthLikeEvent :: "StockfishStreamEvent \<Rightarrow> bool" where
  "isDepthLikeEvent (depth_update _ _ _ _ _ _ _ _) = True"
| "isDepthLikeEvent (analysis_complete _ _ _ _ _ _ _) = True"
| "isDepthLikeEvent _ = False"

text \<open>\<open>depthOfEvent\<close> is only called on depth-like events.\<close>

fun depthOfEvent :: "StockfishStreamEvent \<Rightarrow> int" where
  "depthOfEvent (depth_update _ _ _ d _ _ _ _) = d"
| "depthOfEvent (analysis_complete _ _ fd _ _ _ _) = fd"
| "depthOfEvent _ = 0"

definition stageTopN :: "int \<Rightarrow> AnalysisArrowSession \<Rightarrow> int" where
  "stageTopN d s =
     (let warmupDepthLimit = minDepth s + warmupDepthCount s - 1
      in if d \<le> warmupDepthLimit then warmupTopN s else steadyTopN s)"

text \<open>\<open>lines.slice(0, Math.max(1, topN))\<close>: the end index is at least 1, so the slice is a prefix.\<close>

definition trimLinesForStage ::
  "StockfishPVLine list \<Rightarrow> int \<Rightarrow> AnalysisArrowSession \<Rightarrow> StockfishPVLine list" where
  "trimLinesForStage ls d s = take (nat (max 1 (stageTopN d s))) ls"

definition createInitialAnalysisArrowState :: AnalysisArrowState where
  "createInitialAnalysisArrowState =
     \<lparr> status = idle, session = None, snapshot = None, events = [], lastError = None \<rparr>"

text \<open>The spread \<open>{...payload, lines: trimmedLines, multipv: trimmedLines.length}\<close>.\<close>

fun trimPayload :: "StockfishStreamEvent \<Rightarrow> StockfishPVLine list \<Rightarrow> StockfishStreamEvent" where
  "trimPayload (depth_update a f s d m b ls g) trimmed =
     depth_update a f s d (int (length trimmed)) b trimmed g"
| "trimPayload (analysis_complete a f fd b ls r g) trimmed =
     analysis_complete a f fd b trimmed r g"
| "trimPayload p trimmed = p"

subsection \<open>The reducer\<close>

text \<open>
  The branch \<open>ingest_stream_event\<close> once the session is known to exist and to carry the
  action's token. \<open>now\<close> is the reading of \<open>Date.now()\<close>.
\<close>

definition ingestForSession ::
  "int \<Rightarrow> AnalysisArrowState \<Rightarrow> AnalysisArrowSession \<Rightarrow> StockfishStreamEvent \<Rightarrow> AnalysisArrowState" where
  "ingestForSession now state sess payload =
     (case payload of
        analysis_error _ _ msg _ _ \<Rightarrow>
          \<lparr> status = closed, session = None, snapshot = None,
            events = events state @ [payload], lastError = Some msg \<rparr>
      | other_event _ \<Rightarrow> state
      | _ \<Rightarrow>
          if fen payload \<noteq> targetFen sess then state
          else if analysisId sess \<noteq> None \<and> Some (analysis_id payload) \<noteq> analysisId sess then state
          else
            let analysisId' = (case analysisId sess of Some a \<Rightarrow> a | None \<Rightarrow> analysis_id payload);
                d = depthOfEvent payload;
                trimmedLines = trimLinesForStage (lines payload) d sess;
                trimmedPayload = trimPayload payload trimmedLines;
                snap = \<lparr> snapshot_targetFen = fen payload,
                         snapshot_analysisId = analysisId',
                         snapshot_depth = d,
                         arrows = map mapLineToBoardArrow trimmedLines,
                         updatedAtMs = now \<rparr>
            in (case payload of
                  analysis_complete _ _ _ _ _ _ _ \<Rightarrow>
                    \<lparr> status = closed, session = None, snapshot = Some snap,
                      events = events state @ [trimmedPayload], lastError = None \<rparr>
                | _ \<Rightarrow>
                    \<lparr> status = streaming,
                      session = Some (sess\<lparr> analysisId := Some analysisId' \<rparr>),
                      snapshot = Some snap,
                      events = events state @ [trimmedPayload], lastError = None \<rparr>))"

fun analysisArrowReducer ::
  "int \<Rightarrow> AnalysisArrowState \<Rightarrow> AnalysisArrowAction \<Rightarrow> AnalysisArrowState" where
  "analysisArrowReducer now state (start_session tok tfen md wdc wn sn) =
     \<lparr> status = streaming,
       session = Some \<lparr> streamToken = tok, targetFen = tfen, analysisId = None,
                       minDepth = md, warmupDepthCount = wdc, warmupTopN = wn,
                       steadyTopN = sn \<rparr>,
       snapshot = None, events = [], lastError = None \<rparr>"
| "analysisArrowReducer now state (stop_session tok nextStatus) =
     (case session state of
        None \<Rightarrow> state
      | Some sess \<Rightarrow>
          if streamToken sess \<noteq> tok then state
          else state\<lparr> status := nextStatus, session := None \<rparr>)"
| "analysisArrowReducer now state reset_for_board_change = createInitialAnalysisArrowState"
| "analysisArrowReducer now state (local_error msg) =
     \<lparr> status = closed, session = None, snapshot = None, events = [], lastError = Some msg \<rparr>"
| "analysisArrowReducer now state (ingest_stream_event tok payload) =
     (case session state of
        None \<Rightarrow> state
      | Some sess \<Rightarrow>
          if streamToken sess \<noteq> tok then state
          else ingestForSession now state sess payload)"

text \<open>A run of the reducer: every dispatched action comes with the clock reading of its dispatch.\<close>

fun runReducer :: "AnalysisArrowState \<Rightarrow> (int \<times> AnalysisArrowAction) list \<Rightarrow> AnalysisArrowState" where
  "runReducer state [] = state"
| "runReducer state ((now, a) # rest) = runReducer (analysisArrowReducer now state a) rest"

subsection \<open>Vocabulary of the properties\<close>

text \<open>
  A depth-kind event is accepted by \<open>ingest_stream_event\<close> when a session exists, carries the
  action's token, is pinned to the event's position, and has no conflicting analysis id: these
  are exactly the guards the reducer passes before it builds a snapshot.
\<close>

definition acceptsDepthEvent :: "AnalysisArrowState \<Rightarrow> int \<Rightarrow> StockfishStreamEvent \<Rightarrow> bool" where
  "acceptsDepthEvent state tok payload =
     (case session state of
        None \<Rightarrow> False
      | Some sess \<Rightarrow>
          streamToken sess = tok \<and> isDepthLikeEvent payload \<and> fen payload = targetFen sess \<and>
          (analysisId sess = None \<or> analysisId sess = Some (analysis_id payload)))"

fun startsToken :: "int \<Rightarrow> AnalysisArrowAction \<Rightarrow> bool" where
  "startsToken tok (start_session tok' _ _ _ _ _) = (tok' = tok)"
| "startsToken tok _ = False"

definition sessionHasToken :: "int \<Rightarrow> AnalysisArrowState \<Rightarrow> bool" where
  "sessionHasToken tok state =
     (case session state of None \<Rightarrow> False | Some sess \<Rightarrow> streamToken sess = tok)"

subsection \<open>Sample inputs\<close>

definition sampleLine :: "int \<Rightarrow> string \<Rightarrow> StockfishPVLine" where
  "sampleLine r move =
     \<lparr> rank = r, san = None, cp = Some 25, mate = None,
       arrow = \<lparr> uci = js move, from_square = js (take 2 move), to_square = js (drop 2 move),
                 color_slot = 0 \<rparr>,
       pv = [js move] \<rparr>"

definition sampleDepthEvent :: "int \<Rightarrow> StockfishPVLine list \<Rightarrow> StockfishStreamEvent" where
  "sampleDepthEvent d ls =
     depth_update (js ''run-1'') (js ''startpos'') (js ''white'') d (int (length ls)) None ls
       (js ''2026-01-01T00:00:00Z'')"

definition sampleStreaming :: "int \<Rightarrow> int \<Rightarrow> AnalysisArrowState" where
  "sampleStreaming tok topN =
     analysisArrowReducer 0 createInitialAnalysisArrowState
       (start_session tok (js ''startpos'') 8 10 topN topN)"

section \<open>Candidate Line Merger (routes/_layout/analysis.tsx)\<close>

subsection \<open>Host string functions\<close>

text \<open>
  \<open>String.prototype.toLowerCase\<close>, one code unit at a time: the Basic Latin and Latin-1
  capital letters move down by 32; the model leaves every other code unit as it is (the
  host also lowercases capitals of further alphabets, which no property below depends on).
\<close>

definition toLowerCaseUnit :: "int \<Rightarrow> int" where
  "toLowerCaseUnit c =
     (if (65 \<le> c \<and> c \<le> 90) \<or> (192 \<le> c \<and> c \<le> 222 \<and> c \<noteq> 215) then c + 32 else c)"

definition toLowerCase :: "jstring \<Rightarrow> jstring" where
  "toLowerCase s = map toLowerCaseUnit s"

text \<open>Decimal rendering of integers, as template literals and \<open>toFixed\<close> produce it.\<close>

fun showNat :: "nat \<Rightarrow> jstring" where
  "showNat n = (if n < 10 then [48 + int n] else showNat (n div 10) @ [48 + int (n mod 10)])"

declare showNat.simps [simp del]

definition showInt :: "int \<Rightarrow> jstring" where
  "showInt i = (if i < 0 then js ''-'' @ showNat (nat (- i)) else showNat (nat i))"

text \<open>
  \<open>(cp / 100).toFixed(2)\<close> for an integer centipawn score: the sign, the whole pawns, and the
  two digits of the remaining centipawns. This is the exact decimal rendering; the host
  divides in floating point first, which shows only for scores beyond the precision of a
  double. No property below depends on the label.
\<close>

definition toFixed2 :: "int \<Rightarrow> jstring" where
  "toFixed2 c =
     (if c < 0 then js ''-'' else []) @ showNat (nat \<bar>c\<bar> div 100) @ js ''.'' @
     [48 + (\<bar>c\<bar> mod 100) div 10, 48 + \<bar>c\<bar> mod 10]"

definition formatEvalLabel :: "int option \<Rightarrow> int option \<Rightarrow> jstring" where
  "formatEvalLabel c m =
     (case m of
        Some mt \<Rightarrow> js ''M'' @ (if mt > 0 then js ''+'' else []) @ showInt mt
      | None \<Rightarrow>
          (case c of
             Some cpv \<Rightarrow> (if cpv > 0 then js ''+'' @ toFixed2 cpv else toFixed2 cpv)
           | None \<Rightarrow> js ''n/a''))"

subsection \<open>Candidate lines and the insertion-ordered map\<close>

record CandidateStockfishLine =
  branchUci :: jstring
  firstMoveSan :: "jstring option"
  candidate_depth :: int
  candidate_rank :: int
  evalLabel :: jstring
  pvUci :: "jstring list"

text \<open>
  A host \<open>Map\<close> keeps its keys in insertion order: \<open>set\<close> on a present key replaces the
  value in place, and on a new key appends the entry.
\<close>

type_synonym ('k, 'v) jsmap = "('k \<times> 'v) list"

fun mapSet :: "'k \<Rightarrow> 'v \<Rightarrow> ('k, 'v) jsmap \<Rightarrow> ('k, 'v) jsmap" where
  "mapSet k v [] = [(k, v)]"
| "mapSet k v ((k', v') # rest) = (if k' = k then (k, v) # rest else (k', v') # mapSet k v rest)"

definition mapGet :: "'k \<Rightarrow> ('k, 'v) jsmap \<Rightarrow> 'v option" where
  "mapGet k m = map_of m k"

definition mapValues :: "('k, 'v) jsmap \<Rightarrow> 'v list" where
  "mapValues m = map snd m"

text \<open>\<open>new Map(current.map((line) => [line.branchUci, line]))\<close>.\<close>

definition byBranchOf :: "CandidateStockfishLine list \<Rightarrow> (jstring, CandidateStockfishLine) jsmap" where
  "byBranchOf current = fold (\<lambda>line m. mapSet (branchUci line) line m) current []"

subsection \<open>The merge\<close>

definition stockfishDepthOfEvent :: "StockfishStreamEvent \<Rightarrow> int" where
  "stockfishDepthOfEvent payload = depthOfEvent payload"

definition branchOfLine :: "StockfishPVLine \<Rightarrow> jstring" where
  "branchOfLine line = toLowerCase (case pv line of [] \<Rightarrow> uci (arrow line) | move # _ \<Rightarrow> move)"

definition candidateOfLine :: "int \<Rightarrow> StockfishPVLine \<Rightarrow> CandidateStockfishLine" where
  "candidateOfLine d line =
     \<lparr> branchUci = branchOfLine line,
       firstMoveSan = san line,
       candidate_depth = d,
       candidate_rank = rank line,
       evalLabel = formatEvalLabel (cp line) (mate line),
       pvUci = take 8 (map toLowerCase (if pv line \<noteq> [] then pv line else [uci (arrow line)])) \<rparr>"

text \<open>One turn of the loop over \<open>payload.lines\<close>.\<close>

definition mergeLine ::
  "int \<Rightarrow> StockfishPVLine \<Rightarrow> (jstring, CandidateStockfishLine) jsmap
     \<Rightarrow> (jstring, CandidateStockfishLine) jsmap" where
  "mergeLine d line byBranch =
     (if branchOfLine line = [] then byBranch
      else
        (case mapGet (branchOfLine line) byBranch of
           None \<Rightarrow> mapSet (branchOfLine line) (candidateOfLine d line) byBranch
         | Some existing \<Rightarrow>
             if d > candidate_depth existing \<or>
                (d = candidate_depth existing \<and> rank line < candidate_rank existing)
             then mapSet (branchOfLine line) (candidateOfLine d line) byBranch
             else byBranch))"

text \<open>The comparator \<open>(a, b) => b.depth - a.depth || a.rank - b.rank\<close>.\<close>

definition compareCandidates :: "CandidateStockfishLine \<Rightarrow> CandidateStockfishLine \<Rightarrow> int" where
  "compareCandidates a b =
     (if candidate_depth b - candidate_depth a \<noteq> 0 then candidate_depth b - candidate_depth a
      else candidate_rank a - candidate_rank b)"

text \<open>
  \<open>Array.prototype.sort\<close> is stable; with a comparator that orders consistently its result
  is the one of a stable insertion sort.
\<close>

fun insertBy :: "('a \<Rightarrow> 'a \<Rightarrow> int) \<Rightarrow> 'a \<Rightarrow> 'a list \<Rightarrow> 'a list" where
  "insertBy cmp x [] = [x]"
| "insertBy cmp x (y # ys) = (if cmp x y \<le> 0 then x # y # ys else y # insertBy cmp x ys)"

definition sortBy :: "('a \<Rightarrow> 'a \<Rightarrow> int) \<Rightarrow> 'a list \<Rightarrow> 'a list" where
  "sortBy cmp xs = foldr (insertBy cmp) xs []"

definition mergeLines ::
  "CandidateStockfishLine list \<Rightarrow> int \<Rightarrow> StockfishPVLine list \<Rightarrow> CandidateStockfishLine list" where
  "mergeLines current d ls =
     take 10 (sortBy compareCandidates (mapValues (fold (mergeLine d) ls (byBranchOf current))))"

text \<open>
  The parameter type admits the two depth-kind events only; the last equation is never
  reached from the caller, which tests \<open>isStockfishDepthLikeEvent\<close> first.
\<close>

fun mergeCandidateStockfishLines ::
  "CandidateStockfishLine list \<Rightarrow> StockfishStreamEvent \<Rightarrow> CandidateStockfishLine list" where
  "mergeCandidateStockfishLines current (depth_update a f s d m b ls g) =
     mergeLines current (stockfishDepthOfEvent (depth_update a f s d m b ls g)) ls"
| "mergeCandidateStockfishLines current (analysis_complete a f fd b ls r g) =
     mergeLines current (stockfishDepthOfEvent (analysis_complete a f fd b ls r g)) ls"
| "mergeCandidateStockfishLines current _ = current"

subsection \<open>Vocabulary of the properties\<close>

text \<open>The candidate the merger finds stored for a branch: the lookup in the map built from the set.\<close>

definition storedCandidate :: "jstring \<Rightarrow> CandidateStockfishLine list \<Rightarrow> CandidateStockfishLine option" where
  "storedCandidate b current = mapGet b (byBranchOf current)"

text \<open>Descending depth, ties broken by ascending rank.\<close>

definition depthThenRank :: "CandidateStockfishLine \<Rightarrow> CandidateStockfishLine \<Rightarrow> bool" where
  "depthThenRank a b =
     (candidate_depth a > candidate_depth b \<or>
      (candidate_depth a = candidate_depth b \<and> candidate_rank a \<le> candidate_rank b))"

text \<open>
  Invariant of the map in the merge: its keys are distinct and every entry is keyed by its own
  \<open>branchUci\<close>.
\<close>

definition keysOk :: "(jstring, CandidateStockfishLine) jsmap \<Rightarrow> bool" where
  "keysOk m = (distinct (map fst m) \<and> (\<forall>(k, v) \<in> set m. branchUci v = k))"

text \<open>
  What a report at depth \<open>d\<close> with lines \<open>ls\<close> may make of a stored candidate \<open>e\<close>: it is
  either kept, or replaced by the candidate of one of the report's lines, and this only when
  the report is deeper, or as deep with a strictly lower rank.
\<close>

definition replacedBy ::
  "int \<Rightarrow> StockfishPVLine list \<Rightarrow> CandidateStockfishLine \<Rightarrow> CandidateStockfishLine \<Rightarrow> bool" where
  "replacedBy d ls e x =
     (x = e \<or>
      ((\<exists>line \<in> set ls. x = candidateOfLine d line) \<and>
       (d > candidate_depth e \<or> (d = candidate_depth e \<and> candidate_rank x < candidate_rank e))))"

definition sampleMoves :: "string list" where
  "sampleMoves = [''a2a3'', ''b2b3'', ''c2c3'', ''d2d3'', ''e2e3'', ''f2f3'', ''g2g3'', ''h2h3'',
                  ''a2a4'', ''b2b4'', ''c2c4'']"

section \<open>Frame Decoder (features/chess/sse.ts)\<close>

subsection \<open>Host string functions\<close>

text \<open>
  The code units that \<open>String.prototype.trim\<close> strips: the white space and line terminator
  code points of the language (tab, line feed, vertical tab, form feed, carriage return, space,
  no-break space, the space separators, the line and paragraph separators, the byte order mark).
\<close>

definition isWhiteSpaceUnit :: "int \<Rightarrow> bool" where
  "isWhiteSpaceUnit c =
     (if c \<le> 160 then (9 \<le> c \<and> c \<le> 13) \<or> c = 32 \<or> c = 160
      else c = 5760 \<or> (8192 \<le> c \<and> c \<le> 8202) \<or> c = 8232 \<or> c = 8233 \<or> c = 8239 \<or>
           c = 8287 \<or> c = 12288 \<or> c = 65279)"

definition trim :: "jstring \<Rightarrow> jstring" where
  "trim s = rev (dropWhile isWhiteSpaceUnit (rev (dropWhile isWhiteSpaceUnit s)))"

definition startsWith :: "jstring \<Rightarrow> jstring \<Rightarrow> bool" where
  "startsWith s p = (take (length p) s = p)"

text \<open>\<open>s.split("\\n")\<close>: the pieces between line feeds; the empty string gives one empty piece.\<close>

fun splitLines :: "jstring \<Rightarrow> jstring list" where
  "splitLines [] = [[]]"
| "splitLines (c # cs) =
     (if c = 10 then [] # splitLines cs
      else (case splitLines cs of [] \<Rightarrow> [[c]] | l # ls \<Rightarrow> (c # l) # ls))"

text \<open>\<open>xs.join("\\n")\<close>.\<close>

fun joinLines :: "jstring list \<Rightarrow> jstring" where
  "joinLines [] = []"
| "joinLines [l] = l"
| "joinLines (l # ls) = l @ 10 # joinLines ls"

subsection \<open>Decoding\<close>

type_synonym frame = "jstring \<times> jstring"

text \<open>
  One turn of the loop over the lines of a block; the state is the pair of \<open>eventName\<close> and
  \<open>dataLines\<close>.
\<close>

definition parseLine :: "jstring \<Rightarrow> jstring \<times> jstring list \<Rightarrow> jstring \<times> jstring list" where
  "parseLine line st =
     (if line = [] \<or> startsWith line (js '':'') then st
      else if startsWith line (js ''event:'') then
        (let name = trim (drop 6 line) in (if name = [] then js ''message'' else name, snd st))
      else if startsWith line (js ''data:'') then
        (let v = drop 5 line; v' = (if startsWith v (js '' '') then drop 1 v else v)
         in (fst st, snd st @ [v']))
      else st)"

definition parseSseEventBlock :: "jstring \<Rightarrow> frame option" where
  "parseSseEventBlock block =
     (let (eventName, dataLines) = fold parseLine (splitLines block) (js ''message'', [])
      in if dataLines = [] then None else Some (eventName, joinLines dataLines))"

text \<open>\<open>buffer.replace(/\\r\\n/g, "\\n")\<close>.\<close>

fun normalizeNewlines :: "jstring \<Rightarrow> jstring" where
  "normalizeNewlines (a # b # rest) =
     (if a = 13 \<and> b = 10 then 10 # normalizeNewlines rest else a # normalizeNewlines (b # rest))"
| "normalizeNewlines s = s"

text \<open>
  \<open>working.indexOf("\\n\\n")\<close> with the two slices it is used for: the text before the first
  blank line and the text after it, or nothing when there is no blank line.
\<close>

fun splitAtBlankLine :: "jstring \<Rightarrow> (jstring \<times> jstring) option" where
  "splitAtBlankLine (a # b # rest) =
     (if a = 10 \<and> b = 10 then Some ([], rest)
      else map_option (\<lambda>(block, after). (a # block, after)) (splitAtBlankLine (b # rest)))"
| "splitAtBlankLine _ = None"

lemma splitAtBlankLine_shorter:
  "splitAtBlankLine w = Some (block, after) \<Longrightarrow> length after < length w"
  by (induction w arbitrary: block rule: splitAtBlankLine.induct)
     (auto split: if_splits)

text \<open>The \<open>while\<close> loop: the frames emitted, in order, and the text left over.\<close>

function emitLoop :: "jstring \<Rightarrow> frame list \<times> jstring" where
  "emitLoop working =
     (case splitAtBlankLine working of
        None \<Rightarrow> ([], working)
      | Some (rawBlock, after) \<Rightarrow>
          (let (emitted, remainder) = emitLoop after
           in ((case parseSseEventBlock rawBlock of None \<Rightarrow> [] | Some f \<Rightarrow> [f]) @ emitted,
               remainder)))"
  by pat_completeness auto
termination
  by (relation "measure length") (auto dest: splitAtBlankLine_shorter)

declare emitLoop.simps [simp del]

text \<open>
  \<open>emitBufferedEvents(buffer, onEvent)\<close>: the calls of \<open>onEvent\<close>, in order, and the returned
  remainder.
\<close>

definition emitBufferedEvents :: "jstring \<Rightarrow> frame list \<times> jstring" where
  "emitBufferedEvents buffer = emitLoop (normalizeNewlines buffer)"

text \<open>
  The transport's use of the decoder on successive chunks:
  \<open>buffer += chunk; buffer = emitBufferedEvents(buffer, onEvent)\<close>.
\<close>

fun feedChunks :: "jstring \<Rightarrow> jstring list \<Rightarrow> frame list \<times> jstring" where
  "feedChunks buffer [] = ([], buffer)"
| "feedChunks buffer (chunk # chunks) =
     (let (emitted, remainder) = emitBufferedEvents (buffer @ chunk);
          (later, final) = feedChunks remainder chunks
      in (emitted @ later, final))"

section \<open>Authenticated Stream Transport (features/chess/sse.ts)\<close>

text \<open>
  \<open>openAuthenticatedSse\<close> starts an asynchronous \<open>run\<close> and returns a handle whose \<open>close\<close>
  the consumer may call at any time. Execution is single-threaded: \<open>run\<close> advances only when
  the promise it awaits settles, and \<open>close\<close> runs between two such steps. The model is the
  state of one handle and a step function over what happens next: a settlement of the awaited
  promise, or a call of \<open>close\<close>. The callbacks are recorded in the order of their delivery;
  they are taken not to throw and not to call back into the handle. A consumer whose callback
  calls \<open>close\<close> in the middle of a step is outside the model; a \<open>close\<close> called once the
  callback has returned is the step \<open>CloseCalled\<close>.
\<close>

datatype Callback = OnOpen | OnEvent jstring jstring | OnClose | OnError jstring

datatype RunPhase =
    AwaitingFetch
  | AwaitingErrorBody jstring
  | AwaitingRead
  | Finished

text \<open>
  A rejection carries the thrown value: \<open>Some message\<close> for an \<open>Error\<close>, \<open>None\<close> for any other
  value. A read settles with \<open>done\<close> and the decoded text of \<open>value\<close>, if any.
\<close>

datatype Happening =
    FetchResolved bool jstring bool
  | FetchRejected "jstring option"
  | ErrorBodyResolved jstring
  | ErrorBodyRejected
  | ReadResolved bool "jstring option"
  | ReadRejected "jstring option"
  | CloseCalled

record SseHandle =
  handle_closed :: bool
  aborted :: bool
  phase :: RunPhase
  buffer :: jstring
  delivered :: "Callback list"

definition openAuthenticatedSse :: SseHandle where
  "openAuthenticatedSse =
     \<lparr> handle_closed = False, aborted = False, phase = AwaitingFetch, buffer = [], delivered = [] \<rparr>"

definition deliver :: "Callback list \<Rightarrow> SseHandle \<Rightarrow> SseHandle" where
  "deliver cbs h = h\<lparr> delivered := delivered h @ cbs \<rparr>"

text \<open>The handle's \<open>close\<close>.\<close>

definition close :: "SseHandle \<Rightarrow> SseHandle" where
  "close h =
     (if handle_closed h then h
      else deliver [OnClose] (h\<lparr> handle_closed := True, aborted := True \<rparr>))"

text \<open>The \<open>catch\<close> block of \<open>run\<close>.\<close>

definition catchError :: "jstring option \<Rightarrow> SseHandle \<Rightarrow> SseHandle" where
  "catchError err h =
     (if aborted h then h\<lparr> phase := Finished \<rparr>
      else deliver [OnError (case err of Some m \<Rightarrow> m | None \<Rightarrow> js ''Unknown stream error.'')]
             (h\<lparr> phase := Finished \<rparr>))"

text \<open>The code after the read loop.\<close>

definition afterLoop :: "SseHandle \<Rightarrow> SseHandle" where
  "afterLoop h =
     (if \<not> handle_closed h
      then deliver [OnClose] (h\<lparr> handle_closed := True, phase := Finished \<rparr>)
      else h\<lparr> phase := Finished \<rparr>)"

text \<open>The head of \<open>while (!closed)\<close>: either the next read is awaited or the loop is left.\<close>

definition loopHead :: "SseHandle \<Rightarrow> SseHandle" where
  "loopHead h = (if handle_closed h then afterLoop h else h\<lparr> phase := AwaitingRead \<rparr>)"

fun runStep :: "SseHandle \<Rightarrow> Happening \<Rightarrow> SseHandle" where
  "runStep h CloseCalled = close h"
| "runStep h (FetchRejected err) =
     (if phase h = AwaitingFetch then catchError err h else h)"
| "runStep h (FetchResolved ok statusLine hasBody) =
     (if phase h \<noteq> AwaitingFetch then h
      else if \<not> ok then h\<lparr> phase := AwaitingErrorBody statusLine \<rparr>
      else if \<not> hasBody then catchError (Some (js ''Stream request returned no readable body.'')) h
      else loopHead (deliver [OnOpen] h))"
| "runStep h (ErrorBodyResolved body) =
     (case phase h of
        AwaitingErrorBody statusLine \<Rightarrow>
          catchError
            (Some (js ''Stream request failed: '' @ (if trim body \<noteq> [] then body else statusLine))) h
      | _ \<Rightarrow> h)"
| "runStep h ErrorBodyRejected =
     (case phase h of
        AwaitingErrorBody statusLine \<Rightarrow>
          catchError (Some (js ''Stream request failed: '' @ statusLine)) h
      | _ \<Rightarrow> h)"
| "runStep h (ReadRejected err) =
     (if phase h = AwaitingRead then catchError err h else h)"
| "runStep h (ReadResolved done v) =
     (if phase h \<noteq> AwaitingRead then h
      else if done then afterLoop h
      else (case v of
              None \<Rightarrow> loopHead h
            | Some chunk \<Rightarrow>
                (let (emitted, remainder) = emitBufferedEvents (buffer h @ chunk)
                 in loopHead (deliver (map (\<lambda>(n, d). OnEvent n d) emitted)
                                (h\<lparr> buffer := remainder \<rparr>)))))"

definition runHandle :: "SseHandle \<Rightarrow> Happening list \<Rightarrow> SseHandle" where
  "runHandle h hs = foldl runStep h hs"

text \<open>
  The terminal callbacks are \<open>onClose\<close> and \<open>onError\<close>. A handle is undisturbed while its
  \<open>close\<close> has not been called: \<open>run\<close> either has ended, with at most one terminal callback
  delivered, or is still awaiting a promise, with none delivered.
\<close>

fun isTerminal :: "Callback \<Rightarrow> bool" where
  "isTerminal OnClose = True"
| "isTerminal (OnError _) = True"
| "isTerminal _ = False"

definition terminalCount :: "SseHandle \<Rightarrow> nat" where
  "terminalCount h = length (filter isTerminal (delivered h))"

definition undisturbed :: "SseHandle \<Rightarrow> bool" where
  "undisturbed h =
     (if phase h = Finished then terminalCount h \<le> 1
      else terminalCount h = 0 \<and> \<not> handle_closed h \<and> \<not> aborted h)"

section \<open>The host's JSON.parse\<close>

text \<open>
  \<open>JSON.parse\<close> belongs to the host, not to the repository. It is modelled after the JSON
  grammar it implements: a text is white space, one value, white space; a value is an object,
  an array, a string, a number or one of the three literals. The model reads the text one code
  unit at a time, with a stack of the containers that are still open, and returns \<open>None\<close> where
  \<open>JSON.parse\<close> throws a \<open>SyntaxError\<close>. A number is kept as its lexeme: the extractor only
  ever asks whether a value is a number.
\<close>

datatype json =
    JNull
  | JBool bool
  | JNumber jstring
  | JString jstring
  | JArray "json list"
  | JObject "(jstring \<times> json) list"

datatype jframe =
    FArray "json list"
  | FObject "(jstring \<times> json) list" "jstring option"

datatype numState = NMinus | NZero | NInt | NDot | NFrac | NExp | NExpSign | NExpDigits

datatype jmode =
    ExpectValue
  | ExpectValueOrEnd
  | ExpectKeyOrEnd
  | ExpectKey
  | ExpectColon
  | AfterValue
  | Done json
  | InString bool jstring
  | InEscape bool jstring
  | InUnicode bool jstring "int list"
  | InNumber numState jstring
  | InLiteral jstring json

type_synonym jstate = "jmode \<times> jframe list"

definition isJsonSpace :: "int \<Rightarrow> bool" where
  "isJsonSpace c = (c = 32 \<or> c = 9 \<or> c = 10 \<or> c = 13)"

definition isDigit :: "int \<Rightarrow> bool" where
  "isDigit c = (48 \<le> c \<and> c \<le> 57)"

definition hexValue :: "int \<Rightarrow> int option" where
  "hexValue c =
     (if 48 \<le> c \<and> c \<le> 57 then Some (c - 48)
      else if 65 \<le> c \<and> c \<le> 70 then Some (c - 55)
      else if 97 \<le> c \<and> c \<le> 102 then Some (c - 87)
      else None)"

text \<open>A finished value goes to the container on top of the stack, or is the result.\<close>

fun completeValue :: "json \<Rightarrow> jframe list \<Rightarrow> jstate option" where
  "completeValue v [] = Some (Done v, [])"
| "completeValue v (FArray es # rest) = Some (AfterValue, FArray (es @ [v]) # rest)"
| "completeValue v (FObject kvs (Some k) # rest) = Some (AfterValue, FObject (kvs @ [(k, v)]) None # rest)"
| "completeValue v (FObject kvs None # rest) = None"

fun completeString :: "bool \<Rightarrow> jstring \<Rightarrow> jframe list \<Rightarrow> jstate option" where
  "completeString False s stack = completeValue (JString s) stack"
| "completeString True s (FObject kvs None # rest) = Some (ExpectColon, FObject kvs (Some s) # rest)"
| "completeString True s _ = None"

fun closeArray :: "jframe list \<Rightarrow> jstate option" where
  "closeArray (FArray es # rest) = completeValue (JArray es) rest"
| "closeArray _ = None"

fun closeObject :: "jframe list \<Rightarrow> jstate option" where
  "closeObject (FObject kvs None # rest) = completeValue (JObject kvs) rest"
| "closeObject _ = None"

text \<open>The first code unit of a value.\<close>

definition startValue :: "jframe list \<Rightarrow> int \<Rightarrow> jstate option" where
  "startValue stack c =
     (if c = 123 then Some (ExpectKeyOrEnd, FObject [] None # stack)
      else if c = 91 then Some (ExpectValueOrEnd, FArray [] # stack)
      else if c = 34 then Some (InString False [], stack)
      else if c = 45 then Some (InNumber NMinus [c], stack)
      else if c = 48 then Some (InNumber NZero [c], stack)
      else if 49 \<le> c \<and> c \<le> 57 then Some (InNumber NInt [c], stack)
      else if c = 116 then Some (InLiteral (js ''rue'') (JBool True), stack)
      else if c = 102 then Some (InLiteral (js ''alse'') (JBool False), stack)
      else if c = 110 then Some (InLiteral (js ''ull'') JNull, stack)
      else None)"

text \<open>A code unit between tokens.\<close>

fun structStep :: "jmode \<Rightarrow> jframe list \<Rightarrow> int \<Rightarrow> jstate option" where
  "structStep ExpectValue stack c =
     (if isJsonSpace c then Some (ExpectValue, stack) else startValue stack c)"
| "structStep ExpectValueOrEnd stack c =
     (if isJsonSpace c then Some (ExpectValueOrEnd, stack)
      else if c = 93 then closeArray stack
      else startValue stack c)"
| "structStep ExpectKeyOrEnd stack c =
     (if isJsonSpace c then Some (ExpectKeyOrEnd, stack)
      else if c = 125 then closeObject stack
      else if c = 34 then Some (InString True [], stack)
      else None)"
| "structStep ExpectKey stack c =
     (if isJsonSpace c then Some (ExpectKey, stack)
      else if c = 34 then Some (InString True [], stack)
      else None)"
| "structStep ExpectColon stack c =
     (if isJsonSpace c then Some (ExpectColon, stack)
      else if c = 58 then Some (ExpectValue, stack)
      else None)"
| "structStep AfterValue stack c =
     (if isJsonSpace c then Some (AfterValue, stack)
      else if c = 44 then
        (case stack of
           FArray es # rest \<Rightarrow> Some (ExpectValue, stack)
         | FObject kvs None # rest \<Rightarrow> Some (ExpectKey, stack)
         | _ \<Rightarrow> None)
      else if c = 93 then closeArray stack
      else if c = 125 then closeObject stack
      else None)"
| "structStep (Done v) stack c = (if isJsonSpace c then Some (Done v, stack) else None)"
| "structStep _ stack c = None"

fun numNext :: "numState \<Rightarrow> int \<Rightarrow> numState option" where
  "numNext NMinus c = (if c = 48 then Some NZero else if 49 \<le> c \<and> c \<le> 57 then Some NInt else None)"
| "numNext NZero c = (if c = 46 then Some NDot else if c = 101 \<or> c = 69 then Some NExp else None)"
| "numNext NInt c =
     (if isDigit c then Some NInt else if c = 46 then Some NDot
      else if c = 101 \<or> c = 69 then Some NExp else None)"
| "numNext NDot c = (if isDigit c then Some NFrac else None)"
| "numNext NFrac c = (if isDigit c then Some NFrac else if c = 101 \<or> c = 69 then Some NExp else None)"
| "numNext NExp c = (if c = 43 \<or> c = 45 then Some NExpSign else if isDigit c then Some NExpDigits else None)"
| "numNext NExpSign c = (if isDigit c then Some NExpDigits else None)"
| "numNext NExpDigits c = (if isDigit c then Some NExpDigits else None)"

fun numAccepting :: "numState \<Rightarrow> bool" where
  "numAccepting NZero = True"
| "numAccepting NInt = True"
| "numAccepting NFrac = True"
| "numAccepting NExpDigits = True"
| "numAccepting _ = False"

definition escapeValue :: "int \<Rightarrow> int option" where
  "escapeValue c =
     (if c = 34 \<or> c = 92 \<or> c = 47 then Some c
      else if c = 98 then Some 8
      else if c = 102 then Some 12
      else if c = 110 then Some 10
      else if c = 114 then Some 13
      else if c = 116 then Some 9
      else None)"

fun jsonStep :: "jstate \<Rightarrow> int \<Rightarrow> jstate option" where
  "jsonStep (InString k acc, stack) c =
     (if c = 34 then completeString k acc stack
      else if c = 92 then Some (InEscape k acc, stack)
      else if c < 32 then None
      else Some (InString k (acc @ [c]), stack))"
| "jsonStep (InEscape k acc, stack) c =
     (if c = 117 then Some (InUnicode k acc [], stack)
      else (case escapeValue c of
              Some u \<Rightarrow> Some (InString k (acc @ [u]), stack)
            | None \<Rightarrow> None))"
| "jsonStep (InUnicode k acc ds, stack) c =
     (case hexValue c of
        None \<Rightarrow> None
      | Some d \<Rightarrow>
          if length ds = 3
          then Some (InString k (acc @ [foldl (\<lambda>n x. 16 * n + x) 0 (ds @ [d])]), stack)
          else Some (InUnicode k acc (ds @ [d]), stack))"
| "jsonStep (InNumber ns lexeme, stack) c =
     (case numNext ns c of
        Some ns' \<Rightarrow> Some (InNumber ns' (lexeme @ [c]), stack)
      | None \<Rightarrow>
          if numAccepting ns
          then (case completeValue (JNumber lexeme) stack of
                  None \<Rightarrow> None
                | Some (m, stack') \<Rightarrow> structStep m stack' c)
          else None)"
| "jsonStep (InLiteral rest v, stack) c =
     (case rest of
        [] \<Rightarrow> None
      | r # rs \<Rightarrow>
          if c \<noteq> r then None
          else if rs = [] then completeValue v stack
          else Some (InLiteral rs v, stack))"
| "jsonStep (m, stack) c = structStep m stack c"

fun runJson :: "jstate \<Rightarrow> jstring \<Rightarrow> jstate option" where
  "runJson st [] = Some st"
| "runJson st (c # cs) = (case jsonStep st c of None \<Rightarrow> None | Some st' \<Rightarrow> runJson st' cs)"

text \<open>The end of the text: a value must be complete and no container open.\<close>

fun finishJson :: "jstate \<Rightarrow> json option" where
  "finishJson (Done v, []) = Some v"
| "finishJson (InNumber ns lexeme, []) = (if numAccepting ns then Some (JNumber lexeme) else None)"
| "finishJson _ = None"

definition jsonParse :: "jstring \<Rightarrow> json option" where
  "jsonParse text =
     (case runJson (ExpectValue, []) text of None \<Rightarrow> None | Some st \<Rightarrow> finishJson st)"

section \<open>Commentary Extractor (routes/_layout/analysis.tsx)\<close>

subsection \<open>Host string functions\<close>

text \<open>\<open>s.replace(/pat/g, "")\<close> for a literal, non-empty pattern.\<close>

function removeAll :: "jstring \<Rightarrow> jstring \<Rightarrow> jstring" where
  "removeAll pat s =
     (case s of
        [] \<Rightarrow> []
      | c # cs \<Rightarrow>
          if pat \<noteq> [] \<and> startsWith s pat then removeAll pat (drop (length pat) s)
          else c # removeAll pat cs)"
  by pat_completeness auto
termination
  by (relation "measure (\<lambda>(pat, s). length s)") auto

declare removeAll.simps [simp del]

subsection \<open>Sanitizing\<close>

definition fenceMarker :: jstring where
  "fenceMarker = js ''```''"

definition fenceJsonMarker :: jstring where
  "fenceJsonMarker = js ''```json''"

text \<open>\<open>rawText.replace(/```json/g, "").replace(/```/g, "").trim()\<close>.\<close>

definition stripFenceMarkers :: "jstring \<Rightarrow> jstring" where
  "stripFenceMarkers rawText = trim (removeAll fenceMarker (removeAll fenceJsonMarker rawText))"

definition sanitizeCommentaryText :: "jstring \<Rightarrow> jstring" where
  "sanitizeCommentaryText rawText =
     (let trimmed = trim rawText in
      if trimmed = [] then rawText
      else if \<not> startsWith trimmed fenceMarker then stripFenceMarkers rawText
      else
        (let ls = splitLines trimmed in
         if length ls \<ge> 3 \<and> trim (last ls) = fenceMarker
         then trim (joinLines (butlast (tl ls)))
         else stripFenceMarkers rawText))"

subsection \<open>Candidates\<close>

text \<open>
  The scanner of \<open>extractJsonObjectCandidates\<close>: its variables, and one turn of its loop at
  index \<open>i\<close> of \<open>text\<close> on the code unit \<open>c\<close> found there.
\<close>

record Scanner =
  scan_depth :: nat
  startIndex :: int
  inString :: bool
  escaped :: bool
  candidates :: "jstring list"

definition slice :: "jstring \<Rightarrow> int \<Rightarrow> int \<Rightarrow> jstring" where
  "slice text from until = take (nat (until - from)) (drop (nat from) text)"

definition scanStep :: "jstring \<Rightarrow> nat \<Rightarrow> Scanner \<Rightarrow> int \<Rightarrow> Scanner" where
  "scanStep text i sc c =
     (if inString sc then
        (if escaped sc then sc\<lparr> escaped := False \<rparr>
         else if c = 92 then sc\<lparr> escaped := True \<rparr>
         else if c = 34 then sc\<lparr> inString := False \<rparr>
         else sc)
      else if c = 34 then sc\<lparr> inString := True \<rparr>
      else if c = 123 then
        (if scan_depth sc = 0
         then sc\<lparr> startIndex := int i, scan_depth := scan_depth sc + 1 \<rparr>
         else sc\<lparr> scan_depth := scan_depth sc + 1 \<rparr>)
      else if c = 125 \<and> scan_depth sc > 0 then
        (if scan_depth sc - 1 = 0 \<and> startIndex sc \<ge> 0
         then sc\<lparr> scan_depth := scan_depth sc - 1,
                 candidates := candidates sc @ [trim (slice text (startIndex sc) (int i + 1))],
                 startIndex := - 1 \<rparr>
         else sc\<lparr> scan_depth := scan_depth sc - 1 \<rparr>)
      else sc)"

fun scanLoop :: "jstring \<Rightarrow> nat \<Rightarrow> Scanner \<Rightarrow> jstring \<Rightarrow> Scanner" where
  "scanLoop text i sc [] = sc"
| "scanLoop text i sc (c # cs) = scanLoop text (Suc i) (scanStep text i sc c) cs"

definition extractJsonObjectCandidates :: "jstring \<Rightarrow> jstring list" where
  "extractJsonObjectCandidates text =
     candidates (scanLoop text 0
       \<lparr> scan_depth = 0, startIndex = - 1, inString = False, escaped = False, candidates = [] \<rparr>
       text)"

definition normalizeCandidate :: "jstring \<Rightarrow> jstring" where
  "normalizeCandidate candidate =
     (let trimmed = trim candidate in
      if startsWith (toLowerCase trimmed) (js ''json\<newline>'') then trim (drop 5 trimmed) else trimmed)"

text \<open>
  \<open>candidate.replace(/,\\s*([}\\]])/g, "$1")\<close>: a comma, any white space after it, and then a
  closing brace or bracket are replaced by the closing brace or bracket.
\<close>

function repairCandidate :: "jstring \<Rightarrow> jstring" where
  "repairCandidate [] = []"
| "repairCandidate (c # cs) =
     (if c = 44 then
        (case dropWhile isWhiteSpaceUnit cs of
           [] \<Rightarrow> c # repairCandidate cs
         | d # ds \<Rightarrow> if d = 125 \<or> d = 93 then d # repairCandidate ds else c # repairCandidate cs)
      else c # repairCandidate cs)"
  by pat_completeness auto
termination
proof (relation "measure length")
  fix c :: int and cs d ds
  assume "dropWhile isWhiteSpaceUnit cs = d # ds"
  then have "length (d # ds) \<le> length cs"
    by (metis length_dropWhile_le)
  then show "(ds, c # cs) \<in> measure length" by simp
qed auto

text \<open>\<open>pushCandidate\<close>: the list \<open>candidates\<close>; the set \<open>seenCandidates\<close> holds its members.\<close>

definition pushCandidate :: "jstring list \<Rightarrow> jstring \<Rightarrow> jstring list" where
  "pushCandidate cands candidate =
     (let normalized = normalizeCandidate candidate in
      if normalized = [] \<or> normalized \<in> set cands then cands else cands @ [normalized])"

definition candidatesOf :: "jstring \<Rightarrow> jstring list" where
  "candidatesOf clean = foldl pushCandidate (pushCandidate [] clean) (extractJsonObjectCandidates clean)"

subsection \<open>Validation\<close>

record ConcreteIdea =
  title :: jstring
  description :: jstring
  selected_line_id :: jstring
  playback_pv_uci :: "jstring list"

record CommentaryStructuredPlan =
  position_plan_title :: jstring
  advantage_side :: jstring
  advantage_summary :: jstring
  best_move_san :: jstring
  best_move_reason :: jstring
  danger_to_watch :: jstring
  white_plan :: "jstring \<times> jstring"
  black_plan :: "jstring \<times> jstring"
  concrete_ideas :: "ConcreteIdea list"

text \<open>
  What is thrown inside the \<open>try\<close> block: the \<open>SyntaxError\<close> of \<open>JSON.parse\<close>, and the
  \<open>TypeError\<close> of reading a property of \<open>null\<close>.
\<close>

datatype thrown = SyntaxError | TypeError

text \<open>
  \<open>parsed.name\<close>: the value of the last member of that name of an object, \<open>undefined\<close>
  (\<open>None\<close>) for a missing member and for a value that is not an object; on \<open>null\<close> it throws.
  None of the names the extractor reads is a property that arrays, strings, numbers or
  booleans have of their own.
\<close>

fun getProperty :: "json \<Rightarrow> jstring \<Rightarrow> thrown + json option" where
  "getProperty JNull name = Inl TypeError"
| "getProperty (JObject kvs) name = Inr (map_of (rev kvs) name)"
| "getProperty _ name = Inr None"

text \<open>A property read after the first one has succeeded, so on a value that is not \<open>null\<close>.\<close>

definition propertyOf :: "json \<Rightarrow> jstring \<Rightarrow> json option" where
  "propertyOf parsed name = (case getProperty parsed name of Inr v \<Rightarrow> v | Inl e \<Rightarrow> None)"

definition asText :: "json option \<Rightarrow> jstring option" where
  "asText v =
     (case v of
        Some (JString s) \<Rightarrow> (let normalized = trim s in if normalized = [] then None else Some normalized)
      | _ \<Rightarrow> None)"

text \<open>
  \<open>value.split(/\\n|;|...|\\s-\\s/)\<close>: the separators are a line feed, a semicolon, the three
  code units that spell the bullet in the source file (226, 8364, 162), and a hyphen between
  two white space code units; at every position the alternatives are tried in this order.
\<close>

function splitPlanText :: "jstring \<Rightarrow> jstring \<Rightarrow> jstring list" where
  "splitPlanText piece [] = [piece]"
| "splitPlanText piece (c # cs) =
     (if c = 10 \<or> c = 59 then piece # splitPlanText [] cs
      else if startsWith (c # cs) [226, 8364, 162] then piece # splitPlanText [] (drop 2 cs)
      else if isWhiteSpaceUnit c \<and> length cs \<ge> 2 \<and> cs ! 0 = 45 \<and> isWhiteSpaceUnit (cs ! 1)
      then piece # splitPlanText [] (drop 2 cs)
      else splitPlanText (piece @ [c]) cs)"
  by pat_completeness auto
termination
  by (relation "measure (\<lambda>(piece, s). length s)") auto

definition firstTwo :: "jstring list \<Rightarrow> (jstring \<times> jstring) option" where
  "firstTwo entries =
     (case take 2 entries of [a, b] \<Rightarrow> Some (a, b) | _ \<Rightarrow> None)"

definition asPlanBullets :: "json option \<Rightarrow> (jstring \<times> jstring) option" where
  "asPlanBullets v =
     (case v of
        Some (JArray vs) \<Rightarrow> firstTwo (List.map_filter (\<lambda>x. asText (Some x)) vs)
      | Some (JString s) \<Rightarrow> firstTwo (filter (\<lambda>e. e \<noteq> []) (map trim (splitPlanText [] s)))
      | _ \<Rightarrow> None)"

text \<open>\<open>`L${String(index + 1).padStart(2, "0")}`\<close>.\<close>

definition lineIdOfIndex :: "nat \<Rightarrow> jstring" where
  "lineIdOfIndex index =
     js ''L'' @ (if index + 1 < 10 then js ''0'' else []) @ showNat (index + 1)"

definition playbackMove :: "json \<Rightarrow> jstring" where
  "playbackMove v = (case v of JString s \<Rightarrow> toLowerCase (trim s) | _ \<Rightarrow> [])"

text \<open>The callback of \<open>ideasRaw.map\<close>; it reads properties of objects and arrays only.\<close>

definition parseIdea :: "json \<Rightarrow> nat \<Rightarrow> ConcreteIdea option" where
  "parseIdea idea index =
     (let props = (case idea of JObject kvs \<Rightarrow> Some (\<lambda>name. map_of (rev kvs) name)
                   | JArray vs \<Rightarrow> Some (\<lambda>name. None)
                   | _ \<Rightarrow> None)
      in case props of
           None \<Rightarrow> None
         | Some get \<Rightarrow>
             (let ideaTitle = asText (get (js ''title''));
                  ideaDescription = asText (get (js ''description''));
                  selectedLineId = (case asText (get (js ''selected_line_id'')) of
                                      Some t \<Rightarrow> t | None \<Rightarrow> lineIdOfIndex index);
                  playbackRaw = (case get (js ''playback_pv_uci'') of Some (JArray ms) \<Rightarrow> ms | _ \<Rightarrow> []);
                  playback = filter (\<lambda>m. m \<noteq> []) (map playbackMove playbackRaw)
              in case (ideaTitle, ideaDescription) of
                   (Some t, Some d) \<Rightarrow>
                     if playback = [] then None
                     else Some \<lparr> title = t, description = d, selected_line_id = selectedLineId,
                                 playback_pv_uci = playback \<rparr>
                 | _ \<Rightarrow> None))"

definition parseIdeas :: "json option \<Rightarrow> ConcreteIdea list" where
  "parseIdeas v =
     (let ideasRaw = (case v of Some (JArray vs) \<Rightarrow> vs | _ \<Rightarrow> [])
      in take 2 (List.map_filter (\<lambda>(idea, index). parseIdea idea index)
                   (zip ideasRaw [0 ..< length ideasRaw])))"

definition advantageSideOf :: "json option \<Rightarrow> jstring" where
  "advantageSideOf sideRaw =
     (case sideRaw of
        Some (JString s) \<Rightarrow>
          if s = js ''white'' \<or> s = js ''black'' \<or> s = js ''equal'' \<or> s = js ''unclear''
          then s else js ''unclear''
      | _ \<Rightarrow> js ''unclear'')"

text \<open>
  The statements of the \<open>try\<close> block after the parse: \<open>Inl\<close> is a throw, \<open>Inr None\<close> is
  \<open>continue\<close>, and \<open>Inr (Some plan)\<close> is \<open>return plan\<close>.
\<close>

definition validateParsed :: "json \<Rightarrow> thrown + CommentaryStructuredPlan option" where
  "validateParsed parsed =
     (case getProperty parsed (js ''position_plan_title'') of
        Inl e \<Rightarrow> Inl e
      | Inr titleRaw \<Rightarrow>
          (let get = propertyOf parsed;
               title = asText titleRaw;
               advantageSummary = asText (get (js ''advantage_summary''));
               bestMoveSan = asText (get (js ''best_move_san''));
               bestMoveReason = asText (get (js ''best_move_reason''));
               dangerToWatch = asText (get (js ''danger_to_watch''));
               whitePlan = asPlanBullets (get (js ''white_plan''));
               blackPlan = asPlanBullets (get (js ''black_plan''))
           in case (title, advantageSummary, bestMoveSan, bestMoveReason, dangerToWatch) of
                (Some t, Some a, Some bs, Some br, Some dw) \<Rightarrow>
                  (case (whitePlan, blackPlan) of
                     (Some wp, Some bp) \<Rightarrow>
                       Inr (Some \<lparr> position_plan_title = t,
                                   advantage_side = advantageSideOf (get (js ''advantage_side'')),
                                   advantage_summary = a,
                                   best_move_san = bs,
                                   best_move_reason = br,
                                   danger_to_watch = dw,
                                   white_plan = wp,
                                   black_plan = bp,
                                   concrete_ideas = parseIdeas (get (js ''concrete_ideas'')) \<rparr>)
                   | _ \<Rightarrow> Inr None)
              | _ \<Rightarrow> Inr None))"

text \<open>The parse with its one retry on the repaired text.\<close>

definition parseCandidate :: "jstring \<Rightarrow> thrown + json" where
  "parseCandidate candidate =
     (case jsonParse candidate of
        Some v \<Rightarrow> Inr v
      | None \<Rightarrow>
          (case jsonParse (repairCandidate candidate) of
             Some v \<Rightarrow> Inr v
           | None \<Rightarrow> Inl SyntaxError))"

definition tryCandidate :: "jstring \<Rightarrow> thrown + CommentaryStructuredPlan option" where
  "tryCandidate candidate =
     (case parseCandidate candidate of
        Inl e \<Rightarrow> Inl e
      | Inr parsed \<Rightarrow> validateParsed parsed)"

text \<open>The loop over the candidates; its \<open>catch\<close> block ignores what the \<open>try\<close> block threw.\<close>

fun candidateLoop :: "jstring list \<Rightarrow> thrown + CommentaryStructuredPlan option" where
  "candidateLoop [] = Inr None"
| "candidateLoop (candidate # rest) =
     (case tryCandidate candidate of
        Inl e \<Rightarrow> candidateLoop rest
      | Inr None \<Rightarrow> candidateLoop rest
      | Inr (Some plan) \<Rightarrow> Inr (Some plan))"

text \<open>
  The result is \<open>Inr None\<close> for \<open>null\<close>, \<open>Inr (Some plan)\<close> for a plan, and would be \<open>Inl\<close> for an
  exception that leaves the function.
\<close>

definition parseCommentaryStructuredFromText :: "jstring \<Rightarrow> thrown + CommentaryStructuredPlan option" where
  "parseCommentaryStructuredFromText rawText =
     (let clean = sanitizeCommentaryText rawText in
      if clean = [] then Inr None else candidateLoop (candidatesOf clean))"

subsection \<open>The scanner and the parser, side by side\<close>






















subsection \<open>Sample texts\<close>

definition samplePlanText :: "string \<Rightarrow> string \<Rightarrow> jstring" where
  "samplePlanText planTitle whitePlan =
     js (''{\"position_plan_title\":\"'' @ planTitle @ ''\",\"advantage_side\":\"white\",'' @
         ''\"advantage_summary\":\"Space\",\"best_move_san\":\"e4\",\"best_move_reason\":\"Center\",'' @
         ''\"danger_to_watch\":\"Pins\",\"white_plan\":'' @ whitePlan @
         '',\"black_plan\":[\"Trade queens\",\"Equalize\"]}'')"

text \<open>A fence-delimited text: the opening line, the text, the closing line.\<close>

definition wrapInFence :: "jstring \<Rightarrow> jstring \<Rightarrow> jstring" where
  "wrapInFence lang text = fenceMarker @ lang @ [10] @ text @ [10] @ fenceMarker"

fun containsFenceMarker :: "jstring \<Rightarrow> bool" where
  "containsFenceMarker [] = False"
| "containsFenceMarker (c # cs) = (startsWith (c # cs) fenceMarker \<or> containsFenceMarker cs)"

subsection \<open>Vocabulary of the properties\<close>

definition planTitleOf :: "thrown + CommentaryStructuredPlan option \<Rightarrow> jstring option" where
  "planTitleOf r = (case r of Inr (Some plan) \<Rightarrow> Some (position_plan_title plan) | _ \<Rightarrow> None)"




text \<open>A text that is a JSON value which validates as a commentary record.\<close>

definition isValidCommentaryJson :: "jstring \<Rightarrow> bool" where
  "isValidCommentaryJson text =
     (case jsonParse text of
        None \<Rightarrow> False
      | Some v \<Rightarrow> (case validateParsed v of Inr (Some plan) \<Rightarrow> True | _ \<Rightarrow> False))"

section \<open>Properties of the Analysis State Machine\<close>

lemma accepted_snapshot:
  assumes "session state = Some sess" and "acceptsDepthEvent state tok p"
  shows "snapshot (analysisArrowReducer now state (ingest_stream_event tok p)) =
           Some \<lparr> snapshot_targetFen = fen p,
                  snapshot_analysisId = (case analysisId sess of Some a \<Rightarrow> a | None \<Rightarrow> analysis_id p),
                  snapshot_depth = depthOfEvent p,
                  arrows = map mapLineToBoardArrow (trimLinesForStage (lines p) (depthOfEvent p) sess),
                  updatedAtMs = now \<rparr>"
  using assms
  by (cases p) (auto simp: acceptsDepthEvent_def ingestForSession_def Let_def)

lemma arrow_rank_mapLine: "map arrow_rank (map mapLineToBoardArrow ls) = map rank ls"
  by (induction ls) (simp_all add: mapLineToBoardArrow_def)

lemma accepted_depth:
  assumes "session state = Some sess" and "acceptsDepthEvent state tok p"
  shows "depthOfEvent p =
           (case p of depth_update a f s d m b ls g \<Rightarrow> d
                    | analysis_complete a f fd b ls r g \<Rightarrow> fd
                    | _ \<Rightarrow> 0)"
  by (cases p) simp_all

lemma stop_clears_token:
  "\<not> sessionHasToken tok (analysisArrowReducer now s (stop_session tok ns))"
  by (auto simp: sessionHasToken_def split: option.splits)

lemma ingest_session_cases:
  "session (ingestForSession now state sess p) = None \<or>
   (\<exists>a. session (ingestForSession now state sess p) = Some (sess\<lparr>analysisId := a\<rparr>)) \<or>
   session (ingestForSession now state sess p) = session state"
  by (cases p) (auto simp: ingestForSession_def Let_def)

lemma reducer_keeps_token_absent:
  assumes "\<not> sessionHasToken tok s" and "\<not> startsToken tok a"
  shows "\<not> sessionHasToken tok (analysisArrowReducer now s a)"
proof (cases a)
  case (ingest_stream_event t p)
  show ?thesis
  proof (cases "session s")
    case None
    then show ?thesis using assms ingest_stream_event by (simp add: sessionHasToken_def)
  next
    case (Some sess)
    then show ?thesis using assms ingest_stream_event ingest_session_cases[of now s sess p]
      by (auto simp: sessionHasToken_def split: option.splits)
  qed
qed (use assms in \<open>auto simp: sessionHasToken_def createInitialAnalysisArrowState_def
       split: option.splits\<close>)

lemma run_keeps_token_absent:
  "\<not> sessionHasToken tok s \<Longrightarrow> \<forall>x \<in> set acts. \<not> startsToken tok (snd x) \<Longrightarrow>
   \<not> sessionHasToken tok (runReducer s acts)"
proof (induction acts arbitrary: s)
  case Nil
  then show ?case by simp
next
  case (Cons x acts)
  obtain now a where x: "x = (now, a)" by (cases x)
  show ?case using Cons x reducer_keeps_token_absent[of tok s a now] by simp
qed

lemma ingest_without_token_noop:
  "\<not> sessionHasToken tok s \<Longrightarrow> analysisArrowReducer now s (ingest_stream_event tok p) = s"
  by (auto simp: sessionHasToken_def split: option.splits)

text \<open>
  Claim C1 (no resurrection of a stopped session). Take any state \<open>s\<close> (reachable or not) and
  any token \<open>tokenA\<close>. After \<open>stop_session\<close> carrying \<open>tokenA\<close> has been applied, let any
  sequence of actions follow in which no \<open>start_session\<close> carries \<open>tokenA\<close>. Then an
  \<open>ingest_stream_event\<close> action carrying \<open>tokenA\<close>, whatever its payload, returns the state
  unchanged.
\<close>

theorem no_resurrection_after_stop:
  assumes "\<forall>x \<in> set acts. \<not> startsToken tokenA (snd x)"
  shows "analysisArrowReducer now'
           (runReducer (analysisArrowReducer now s (stop_session tokenA ns)) acts)
           (ingest_stream_event tokenA p)
         = runReducer (analysisArrowReducer now s (stop_session tokenA ns)) acts"
  using assms by (intro ingest_without_token_noop run_keeps_token_absent stop_clears_token)

theorem no_resurrection_after_stop_witness:
  "analysisArrowReducer 9
     (runReducer (analysisArrowReducer 3 (sampleStreaming 1 5) (stop_session 1 closed))
        [(4, start_session 2 (js ''startpos'') 8 10 5 5),
         (5, ingest_stream_event 2 (sampleDepthEvent 8 [sampleLine 1 ''e2e4'']))])
     (ingest_stream_event 1 (sampleDepthEvent 9 [sampleLine 1 ''d2d4'']))
   = runReducer (analysisArrowReducer 3 (sampleStreaming 1 5) (stop_session 1 closed))
        [(4, start_session 2 (js ''startpos'') 8 10 5 5),
         (5, ingest_stream_event 2 (sampleDepthEvent 8 [sampleLine 1 ''e2e4'']))]"
  using no_resurrection_after_stop
    [of "[(4, start_session 2 (js ''startpos'') 8 10 5 5),
          (5, ingest_stream_event 2 (sampleDepthEvent 8 [sampleLine 1 ''e2e4'']))]" 1]
  by simp

text \<open>
  Claim C10 (frame of \<open>stop_session\<close>). When the state's session carries the action's token,
  the resulting state has status \<open>nextStatus\<close> and no session, and its snapshot, event log and
  last error are those of the input state: it is the input state with just these two fields
  replaced.
\<close>

theorem stop_session_frame:
  assumes "session state = Some sess" and "streamToken sess = tok"
  shows "status (analysisArrowReducer now state (stop_session tok nextStatus)) = nextStatus \<and>
         session (analysisArrowReducer now state (stop_session tok nextStatus)) = None \<and>
         snapshot (analysisArrowReducer now state (stop_session tok nextStatus)) = snapshot state \<and>
         events (analysisArrowReducer now state (stop_session tok nextStatus)) = events state \<and>
         lastError (analysisArrowReducer now state (stop_session tok nextStatus)) = lastError state \<and>
         analysisArrowReducer now state (stop_session tok nextStatus)
           = state\<lparr> status := nextStatus, session := None \<rparr>"
  using assms by simp

theorem stop_session_frame_witness:
  "status (analysisArrowReducer 2 (sampleStreaming 7 5) (stop_session 7 idle)) = idle \<and>
   session (analysisArrowReducer 2 (sampleStreaming 7 5) (stop_session 7 idle)) = None \<and>
   snapshot (analysisArrowReducer 2 (sampleStreaming 7 5) (stop_session 7 idle))
     = snapshot (sampleStreaming 7 5) \<and>
   events (analysisArrowReducer 2 (sampleStreaming 7 5) (stop_session 7 idle))
     = events (sampleStreaming 7 5) \<and>
   lastError (analysisArrowReducer 2 (sampleStreaming 7 5) (stop_session 7 idle))
     = lastError (sampleStreaming 7 5)"
proof -
  have s: "session (sampleStreaming 7 5) =
             Some \<lparr> streamToken = 7, targetFen = js ''startpos'', analysisId = None, minDepth = 8,
                    warmupDepthCount = 10, warmupTopN = 5, steadyTopN = 5 \<rparr>"
    by (simp add: sampleStreaming_def)
  show ?thesis
    using stop_session_frame[OF s, of 7 2 idle] by simp
qed

text \<open>
  Claim C9 (the trim never empties a snapshot). For every accepted depth-kind event, the new
  snapshot holds exactly \<open>min (number of the event's lines) (max 1 topN)\<close> arrows, where
  \<open>topN\<close> is the configured top-N that applies at the event's depth: the session's
  \<open>warmupTopN\<close> while the depth (the event's \<open>depth\<close> or \<open>final_depth\<close>) is at most
  \<open>minDepth + warmupDepthCount - 1\<close>, and its \<open>steadyTopN\<close> afterwards. So an event with at
  least one line yields at least one arrow, and with a configured top-N of 0 or less it yields
  exactly one arrow.
\<close>

theorem trim_keeps_at_least_one_arrow:
  assumes "session state = Some sess" and "acceptsDepthEvent state tok p"
  shows "\<exists>snap. snapshot (analysisArrowReducer now state (ingest_stream_event tok p)) = Some snap \<and>
           length (arrows snap)
             = min (length (lines p)) (nat (max 1 (stageTopN (depthOfEvent p) sess))) \<and>
           (lines p \<noteq> [] \<longrightarrow> 1 \<le> length (arrows snap)) \<and>
           (lines p \<noteq> [] \<and> stageTopN (depthOfEvent p) sess \<le> 0 \<longrightarrow> length (arrows snap) = 1) \<and>
           stageTopN (depthOfEvent p) sess
             = (if depthOfEvent p \<le> minDepth sess + warmupDepthCount sess - 1
                then warmupTopN sess else steadyTopN sess) \<and>
           depthOfEvent p
             = (case p of depth_update a f s d m b ls g \<Rightarrow> d
                        | analysis_complete a f fd b ls r g \<Rightarrow> fd
                        | _ \<Rightarrow> 0) \<and>
           length (arrows snap)
             = min (length (lines p))
                 (nat (max 1 (if snapshot_depth snap \<le> minDepth sess + warmupDepthCount sess - 1
                              then warmupTopN sess else steadyTopN sess))) \<and>
           snapshot_depth snap
             = (case p of depth_update a f s d m b ls g \<Rightarrow> d
                        | analysis_complete a f fd b ls r g \<Rightarrow> fd
                        | _ \<Rightarrow> 0) \<and>
           (lines p \<noteq> [] \<and> warmupTopN sess \<le> 0 \<and> steadyTopN sess \<le> 0 \<longrightarrow>
              length (arrows snap) = 1)"
proof -
  let ?n = "nat (max 1 (stageTopN (depthOfEvent p) sess))"
  have n: "1 \<le> ?n" by simp
  have len: "length (trimLinesForStage (lines p) (depthOfEvent p) sess) = min (length (lines p)) ?n"
    by (simp add: trimLinesForStage_def)
  have ne: "lines p \<noteq> [] \<Longrightarrow> 1 \<le> length (lines p)" by (cases "lines p") simp_all
  have st: "stageTopN (depthOfEvent p) sess
             = (if depthOfEvent p \<le> minDepth sess + warmupDepthCount sess - 1
                then warmupTopN sess else steadyTopN sess)"
    by (simp add: stageTopN_def)
  note dp = accepted_depth[OF assms]
  have z: "warmupTopN sess \<le> 0 \<Longrightarrow> steadyTopN sess \<le> 0 \<Longrightarrow> stageTopN (depthOfEvent p) sess \<le> 0"
    by (simp add: st)
  let ?snap = "\<lparr> snapshot_targetFen = fen p,
                  snapshot_analysisId = (case analysisId sess of Some a \<Rightarrow> a | None \<Rightarrow> analysis_id p),
                  snapshot_depth = depthOfEvent p,
                  arrows = map mapLineToBoardArrow (trimLinesForStage (lines p) (depthOfEvent p) sess),
                  updatedAtMs = now \<rparr>"
  have l: "length (arrows ?snap) = min (length (lines p)) ?n" using len by simp
  have a1: "lines p \<noteq> [] \<longrightarrow> 1 \<le> length (arrows ?snap)" using l n ne by auto
  have a2: "lines p \<noteq> [] \<and> stageTopN (depthOfEvent p) sess \<le> 0 \<longrightarrow> length (arrows ?snap) = 1"
    using l ne by (auto simp: max_def)
  have a3: "length (arrows ?snap)
             = min (length (lines p))
                 (nat (max 1 (if snapshot_depth ?snap \<le> minDepth sess + warmupDepthCount sess - 1
                              then warmupTopN sess else steadyTopN sess)))"
    using l st by simp
  have a4: "snapshot_depth ?snap
             = (case p of depth_update a f s d m b ls g \<Rightarrow> d
                        | analysis_complete a f fd b ls r g \<Rightarrow> fd
                        | _ \<Rightarrow> 0)"
    using dp by simp
  have a5: "lines p \<noteq> [] \<and> warmupTopN sess \<le> 0 \<and> steadyTopN sess \<le> 0 \<longrightarrow>
              length (arrows ?snap) = 1"
    using a2 z by blast
  from accepted_snapshot[OF assms, of now] l a1 a2 st dp a3 a4 a5
  show ?thesis by blast
qed

theorem trim_keeps_at_least_one_arrow_witness:
  "(\<exists>snap. snapshot (analysisArrowReducer 4 (sampleStreaming 1 0)
             (ingest_stream_event 1
                (sampleDepthEvent 8 [sampleLine 1 ''e2e4'', sampleLine 2 ''d2d4'']))) = Some snap \<and>
          length (arrows snap) = 1) \<and>
   (\<exists>snap. snapshot (analysisArrowReducer 4 (sampleStreaming 1 2)
             (ingest_stream_event 1
                (sampleDepthEvent 8
                   [sampleLine 1 ''e2e4'', sampleLine 2 ''d2d4'', sampleLine 3 ''g1f3'']))) = Some snap \<and>
          length (arrows snap) = 2)"
proof
  let ?sess = "\<lparr> streamToken = 1, targetFen = js ''startpos'', analysisId = None, minDepth = 8,
                  warmupDepthCount = 10, warmupTopN = 0, steadyTopN = 0 \<rparr>"
  let ?p = "sampleDepthEvent 8 [sampleLine 1 ''e2e4'', sampleLine 2 ''d2d4'']"
  have s: "session (sampleStreaming 1 0) = Some ?sess"
    by (simp add: sampleStreaming_def)
  have a: "acceptsDepthEvent (sampleStreaming 1 0) 1 ?p"
    by (simp add: acceptsDepthEvent_def sampleStreaming_def sampleDepthEvent_def)
  have t: "stageTopN (depthOfEvent ?p) ?sess = 0"
    by (simp add: stageTopN_def sampleDepthEvent_def)
  show "\<exists>snap. snapshot (analysisArrowReducer 4 (sampleStreaming 1 0)
             (ingest_stream_event 1 ?p)) = Some snap \<and> length (arrows snap) = 1"
    using trim_keeps_at_least_one_arrow[OF s a, of 4] t
    by (auto simp: sampleDepthEvent_def)
next
  let ?sess = "\<lparr> streamToken = 1, targetFen = js ''startpos'', analysisId = None, minDepth = 8,
                  warmupDepthCount = 10, warmupTopN = 2, steadyTopN = 2 \<rparr>"
  let ?p = "sampleDepthEvent 8 [sampleLine 1 ''e2e4'', sampleLine 2 ''d2d4'', sampleLine 3 ''g1f3'']"
  have s: "session (sampleStreaming 1 2) = Some ?sess"
    by (simp add: sampleStreaming_def)
  have a: "acceptsDepthEvent (sampleStreaming 1 2) 1 ?p"
    by (simp add: acceptsDepthEvent_def sampleStreaming_def sampleDepthEvent_def)
  have t: "stageTopN (depthOfEvent ?p) ?sess = 2"
    by (simp add: stageTopN_def sampleDepthEvent_def)
  show "\<exists>snap. snapshot (analysisArrowReducer 4 (sampleStreaming 1 2)
             (ingest_stream_event 1 ?p)) = Some snap \<and> length (arrows snap) = 2"
    using trim_keeps_at_least_one_arrow[OF s a, of 4] t
    by (auto simp: sampleDepthEvent_def)
qed

text \<open>
  Claim C6, as amended. For every accepted depth-kind event, the new snapshot's arrows are the
  leading lines of the event in the event's own order, each line turned into the arrow that
  carries the line's arrow squares, colour slot and move, and the line's rank, score and mate
  distance: the reducer does not sort, so the arrows are sorted by ascending rank whenever the
  event's lines are. Their number is at most \<open>max 1 topN\<close>, where \<open>topN\<close> is \<open>warmupTopN\<close>
  while the depth is at most \<open>minDepth + warmupDepthCount - 1\<close> and \<open>steadyTopN\<close> afterwards;
  so it is at most \<open>topN\<close> whenever the configured \<open>topN\<close> is at least 1.
\<close>

theorem snapshot_arrows_order_and_bound:
  assumes "session state = Some sess" and "acceptsDepthEvent state tok p"
  shows "\<exists>snap. snapshot (analysisArrowReducer now state (ingest_stream_event tok p)) = Some snap \<and>
           map arrow_rank (arrows snap)
             = take (nat (max 1 (stageTopN (depthOfEvent p) sess))) (map rank (lines p)) \<and>
           (sorted (map rank (lines p)) \<longrightarrow> sorted (map arrow_rank (arrows snap))) \<and>
           int (length (arrows snap)) \<le> max 1 (stageTopN (depthOfEvent p) sess) \<and>
           (1 \<le> stageTopN (depthOfEvent p) sess \<longrightarrow>
              int (length (arrows snap)) \<le> stageTopN (depthOfEvent p) sess) \<and>
           stageTopN (depthOfEvent p) sess
             = (if depthOfEvent p \<le> minDepth sess + warmupDepthCount sess - 1
                then warmupTopN sess else steadyTopN sess) \<and>
           arrows snap
             = map (\<lambda>line. \<lparr> arrow_from_square = from_square (arrow line),
                               arrow_to_square = to_square (arrow line),
                               arrow_color_slot = color_slot (arrow line),
                               arrow_rank = rank line,
                               arrow_uci = uci (arrow line),
                               arrow_cp = cp line,
                               arrow_mate = mate line \<rparr>)
                 (take (nat (max 1 (if snapshot_depth snap \<le> minDepth sess + warmupDepthCount sess - 1
                                    then warmupTopN sess else steadyTopN sess)))
                    (lines p)) \<and>
           snapshot_depth snap
             = (case p of depth_update a f s d m b ls g \<Rightarrow> d
                        | analysis_complete a f fd b ls r g \<Rightarrow> fd
                        | _ \<Rightarrow> 0)"
proof -
  let ?n = "nat (max 1 (stageTopN (depthOfEvent p) sess))"
  let ?ar = "map mapLineToBoardArrow (trimLinesForStage (lines p) (depthOfEvent p) sess)"
  let ?snap = "\<lparr> snapshot_targetFen = fen p,
                  snapshot_analysisId = (case analysisId sess of Some a \<Rightarrow> a | None \<Rightarrow> analysis_id p),
                  snapshot_depth = depthOfEvent p,
                  arrows = ?ar,
                  updatedAtMs = now \<rparr>"
  have r: "map arrow_rank ?ar = take ?n (map rank (lines p))"
    by (simp only: arrow_rank_mapLine trimLinesForStage_def take_map)
  have so: "sorted (map rank (lines p)) \<longrightarrow> sorted (map arrow_rank ?ar)"
    unfolding r by (simp add: sorted_wrt_take)
  have len: "int (length ?ar) \<le> max 1 (stageTopN (depthOfEvent p) sess)"
    by (simp add: trimLinesForStage_def)
  have len1: "1 \<le> stageTopN (depthOfEvent p) sess \<longrightarrow>
              int (length ?ar) \<le> stageTopN (depthOfEvent p) sess"
    using len by (auto simp: max_def)
  have st: "stageTopN (depthOfEvent p) sess
             = (if depthOfEvent p \<le> minDepth sess + warmupDepthCount sess - 1
                then warmupTopN sess else steadyTopN sess)"
    by (simp add: stageTopN_def)
  have f: "mapLineToBoardArrow
             = (\<lambda>line. \<lparr> arrow_from_square = from_square (arrow line),
                               arrow_to_square = to_square (arrow line),
                               arrow_color_slot = color_slot (arrow line),
                               arrow_rank = rank line,
                               arrow_uci = uci (arrow line),
                               arrow_cp = cp line,
                               arrow_mate = mate line \<rparr>)"
    by (rule ext) (simp add: mapLineToBoardArrow_def)
  have ar: "?ar
             = map (\<lambda>line. \<lparr> arrow_from_square = from_square (arrow line),
                               arrow_to_square = to_square (arrow line),
                               arrow_color_slot = color_slot (arrow line),
                               arrow_rank = rank line,
                               arrow_uci = uci (arrow line),
                               arrow_cp = cp line,
                               arrow_mate = mate line \<rparr>)
                 (take (nat (max 1 (if depthOfEvent p \<le> minDepth sess + warmupDepthCount sess - 1
                                    then warmupTopN sess else steadyTopN sess)))
                    (lines p))"
    unfolding trimLinesForStage_def st f[symmetric] ..
  note dp = accepted_depth[OF assms]
  have c1: "map arrow_rank (arrows ?snap) = take ?n (map rank (lines p))" using r by simp
  have c2: "sorted (map rank (lines p)) \<longrightarrow> sorted (map arrow_rank (arrows ?snap))" using so by simp
  have c3: "int (length (arrows ?snap)) \<le> max 1 (stageTopN (depthOfEvent p) sess)" using len by simp
  have c4: "1 \<le> stageTopN (depthOfEvent p) sess \<longrightarrow>
              int (length (arrows ?snap)) \<le> stageTopN (depthOfEvent p) sess" using len1 by simp
  have c5: "arrows ?snap
             = map (\<lambda>line. \<lparr> arrow_from_square = from_square (arrow line),
                               arrow_to_square = to_square (arrow line),
                               arrow_color_slot = color_slot (arrow line),
                               arrow_rank = rank line,
                               arrow_uci = uci (arrow line),
                               arrow_cp = cp line,
                               arrow_mate = mate line \<rparr>)
                 (take (nat (max 1 (if snapshot_depth ?snap \<le> minDepth sess + warmupDepthCount sess - 1
                                    then warmupTopN sess else steadyTopN sess)))
                    (lines p))"
    using ar by simp
  have c6: "snapshot_depth ?snap
             = (case p of depth_update a f s d m b ls g \<Rightarrow> d
                        | analysis_complete a f fd b ls r g \<Rightarrow> fd
                        | _ \<Rightarrow> 0)"
    using dp by simp
  from accepted_snapshot[OF assms, of now] c1 c2 c3 c4 st c5 c6
  show ?thesis by blast
qed

theorem snapshot_arrows_order_and_bound_witness:
  "\<exists>snap. snapshot (analysisArrowReducer 4 (sampleStreaming 1 2)
             (ingest_stream_event 1
                (sampleDepthEvent 8
                   [sampleLine 1 ''e2e4'', sampleLine 2 ''d2d4'', sampleLine 3 ''g1f3'']))) = Some snap \<and>
          map arrow_rank (arrows snap) = [1, 2] \<and>
          map arrow_uci (arrows snap) = [js ''e2e4'', js ''d2d4'']"
proof -
  let ?sess = "\<lparr> streamToken = 1, targetFen = js ''startpos'', analysisId = None, minDepth = 8,
                  warmupDepthCount = 10, warmupTopN = 2, steadyTopN = 2 \<rparr>"
  let ?p = "sampleDepthEvent 8 [sampleLine 1 ''e2e4'', sampleLine 2 ''d2d4'', sampleLine 3 ''g1f3'']"
  have s: "session (sampleStreaming 1 2) = Some ?sess"
    by (simp add: sampleStreaming_def)
  have a: "acceptsDepthEvent (sampleStreaming 1 2) 1 ?p"
    by (simp add: acceptsDepthEvent_def sampleStreaming_def sampleDepthEvent_def)
  from snapshot_arrows_order_and_bound[OF s a, of 4] obtain snap where
    sn: "snapshot (analysisArrowReducer 4 (sampleStreaming 1 2) (ingest_stream_event 1 ?p)) = Some snap"
    and ar: "arrows snap
             = map (\<lambda>line. \<lparr> arrow_from_square = from_square (arrow line),
                               arrow_to_square = to_square (arrow line),
                               arrow_color_slot = color_slot (arrow line),
                               arrow_rank = rank line,
                               arrow_uci = uci (arrow line),
                               arrow_cp = cp line,
                               arrow_mate = mate line \<rparr>)
                 (take (nat (max 1 (if snapshot_depth snap \<le> minDepth ?sess + warmupDepthCount ?sess - 1
                                    then warmupTopN ?sess else steadyTopN ?sess)))
                    (lines ?p))"
    by blast
  have "arrows snap
          = map (\<lambda>line. \<lparr> arrow_from_square = from_square (arrow line),
                               arrow_to_square = to_square (arrow line),
                               arrow_color_slot = color_slot (arrow line),
                               arrow_rank = rank line,
                               arrow_uci = uci (arrow line),
                               arrow_cp = cp line,
                               arrow_mate = mate line \<rparr>)
              [sampleLine 1 ''e2e4'', sampleLine 2 ''d2d4'']"
    using ar by (simp add: sampleDepthEvent_def)
  then have "map arrow_rank (arrows snap) = [1, 2] \<and>
             map arrow_uci (arrows snap) = [js ''e2e4'', js ''d2d4'']"
    by (simp add: sampleLine_def)
  with sn show ?thesis by (intro exI[of _ snap]) simp
qed

text \<open>
  Claim C6 as the specification states it fails on the code in both of its parts. An accepted
  event whose two lines arrive with ranks 2, 1 yields arrows with ranks 2, 1, which are not in
  ascending order; and with a configured top-N of 0 an accepted event with one line yields one
  arrow, more than the configured bound.
\<close>

theorem snapshot_sorted_and_topN_bound_counterexample:
  "\<not> (\<forall>now state sess tok p.
         session state = Some sess \<and> acceptsDepthEvent state tok p \<longrightarrow>
         (\<exists>snap. snapshot (analysisArrowReducer now state (ingest_stream_event tok p)) = Some snap \<and>
                 sorted (map arrow_rank (arrows snap)))) \<and>
   \<not> (\<forall>now state sess tok p.
         session state = Some sess \<and> acceptsDepthEvent state tok p \<longrightarrow>
         (\<exists>snap. snapshot (analysisArrowReducer now state (ingest_stream_event tok p)) = Some snap \<and>
                 int (length (arrows snap)) \<le> stageTopN (depthOfEvent p) sess))"
proof (intro conjI notI)
  let ?sess = "\<lambda>n. \<lparr> streamToken = 1, targetFen = js ''startpos'', analysisId = None, minDepth = 8,
                  warmupDepthCount = 10, warmupTopN = n, steadyTopN = n \<rparr>"
  have s: "session (sampleStreaming 1 n) = Some (?sess n)" for n
    by (simp add: sampleStreaming_def)
  {
    let ?p = "sampleDepthEvent 8 [sampleLine 2 ''e2e4'', sampleLine 1 ''d2d4'']"
    assume h: "\<forall>now state sess tok p.
         session state = Some sess \<and> acceptsDepthEvent state tok p \<longrightarrow>
         (\<exists>snap. snapshot (analysisArrowReducer now state (ingest_stream_event tok p)) = Some snap \<and>
                 sorted (map arrow_rank (arrows snap)))"
    have a: "acceptsDepthEvent (sampleStreaming 1 5) 1 ?p"
      by (simp add: acceptsDepthEvent_def sampleStreaming_def sampleDepthEvent_def)
    from h s[of 5] a obtain snap where
      sn: "snapshot (analysisArrowReducer 4 (sampleStreaming 1 5) (ingest_stream_event 1 ?p)) = Some snap"
      and so: "sorted (map arrow_rank (arrows snap))"
      by blast
    have "map arrow_rank (arrows snap) = [2, 1]"
      using sn accepted_snapshot[OF s[of 5] a, of 4]
      by (auto simp: sampleDepthEvent_def sampleLine_def trimLinesForStage_def stageTopN_def
            mapLineToBoardArrow_def)
    with so show False by simp
  }
  {
    let ?p = "sampleDepthEvent 8 [sampleLine 1 ''e2e4'']"
    assume h: "\<forall>now state sess tok p.
         session state = Some sess \<and> acceptsDepthEvent state tok p \<longrightarrow>
         (\<exists>snap. snapshot (analysisArrowReducer now state (ingest_stream_event tok p)) = Some snap \<and>
                 int (length (arrows snap)) \<le> stageTopN (depthOfEvent p) sess)"
    have a: "acceptsDepthEvent (sampleStreaming 1 0) 1 ?p"
      by (simp add: acceptsDepthEvent_def sampleStreaming_def sampleDepthEvent_def)
    from h s[of 0] a obtain snap where
      sn: "snapshot (analysisArrowReducer 4 (sampleStreaming 1 0) (ingest_stream_event 1 ?p)) = Some snap"
      and le: "int (length (arrows snap)) \<le> stageTopN (depthOfEvent ?p) (?sess 0)"
      by blast
    have "length (arrows snap) = 1"
      using sn accepted_snapshot[OF s[of 0] a, of 4]
      by (auto simp: sampleDepthEvent_def sampleLine_def trimLinesForStage_def stageTopN_def)
    moreover have "stageTopN (depthOfEvent ?p) (?sess 0) = 0"
      by (simp add: stageTopN_def sampleDepthEvent_def)
    ultimately show False using le by simp
  }
qed

section \<open>Properties of the Candidate Line Merger\<close>

lemma compare_le_iff: "compareCandidates a b \<le> 0 \<longleftrightarrow> depthThenRank a b"
  by (auto simp: compareCandidates_def depthThenRank_def)

lemma depthThenRank_refl: "depthThenRank a a"
  by (simp add: depthThenRank_def)

lemma depthThenRank_trans: "depthThenRank a b \<Longrightarrow> depthThenRank b c \<Longrightarrow> depthThenRank a c"
  by (auto simp: depthThenRank_def)

lemma depthThenRank_total: "depthThenRank a b \<or> depthThenRank b a"
  by (auto simp: depthThenRank_def)

lemma set_insertBy: "set (insertBy cmp x xs) = insert x (set xs)"
  by (induction xs) auto

lemma set_sortBy: "set (sortBy cmp xs) = set xs"
  by (induction xs) (simp_all add: sortBy_def set_insertBy)

lemma length_insertBy: "length (insertBy cmp x xs) = Suc (length xs)"
  by (induction xs) auto

lemma length_sortBy: "length (sortBy cmp xs) = length xs"
  by (induction xs) (simp_all add: sortBy_def length_insertBy)

lemma filter_insertBy_length:
  "length (filter P (insertBy cmp x xs)) = length (filter P (x # xs))"
  by (induction xs) auto

lemma filter_sortBy_length: "length (filter P (sortBy cmp xs)) = length (filter P xs)"
proof (induction xs)
  case Nil
  then show ?case by (simp add: sortBy_def)
next
  case (Cons x xs)
  have "sortBy cmp (x # xs) = insertBy cmp x (sortBy cmp xs)" by (simp add: sortBy_def)
  then show ?case using Cons by (simp add: filter_insertBy_length)
qed

lemma sorted_insertBy:
  "sorted_wrt depthThenRank xs \<Longrightarrow> sorted_wrt depthThenRank (insertBy compareCandidates x xs)"
proof (induction xs)
  case Nil
  then show ?case by simp
next
  case (Cons y ys)
  show ?case
  proof (cases "compareCandidates x y \<le> 0")
    case True
    then have xy: "depthThenRank x y" by (simp add: compare_le_iff)
    have "\<forall>z \<in> set ys. depthThenRank x z"
      using Cons.prems xy depthThenRank_trans by auto
    then show ?thesis using True Cons.prems xy by simp
  next
    case False
    then have yx: "depthThenRank y x"
      using depthThenRank_total[of x y] by (simp add: compare_le_iff)
    show ?thesis using False Cons yx by (auto simp: set_insertBy)
  qed
qed

lemma sorted_sortBy: "sorted_wrt depthThenRank (sortBy compareCandidates xs)"
proof (induction xs)
  case Nil
  then show ?case by (simp add: sortBy_def)
next
  case (Cons x xs)
  have "sortBy compareCandidates (x # xs) = insertBy compareCandidates x (sortBy compareCandidates xs)"
    by (simp add: sortBy_def)
  then show ?case using Cons sorted_insertBy by simp
qed

lemma mergeLines_bound_sorted:
  "length (mergeLines current d ls) \<le> 10 \<and> sorted_wrt depthThenRank (mergeLines current d ls)"
  by (simp add: mergeLines_def sorted_sortBy sorted_wrt_take)

lemma merge_bound_sorted:
  "isDepthLikeEvent p \<Longrightarrow>
   length (mergeCandidateStockfishLines current p) \<le> 10 \<and>
   sorted_wrt depthThenRank (mergeCandidateStockfishLines current p)"
  by (cases p) (simp_all add: mergeLines_bound_sorted)

lemma map_of_mapSet: "map_of (mapSet k v m) = (map_of m)(k \<mapsto> v)"
  by (induction m) (auto simp: fun_eq_iff)

lemma mapGet_mapSet: "mapGet k' (mapSet k v m) = (if k' = k then Some v else mapGet k' m)"
  by (simp add: mapGet_def map_of_mapSet)

lemma fst_set_mapSet: "fst ` set (mapSet k v m) = insert k (fst ` set m)"
  by (induction k v m rule: mapSet.induct) auto

lemma set_mapSet_subset: "set (mapSet k v m) \<subseteq> insert (k, v) (set m)"
  by (induction k v m rule: mapSet.induct) auto

lemma distinct_mapSet: "distinct (map fst m) \<Longrightarrow> distinct (map fst (mapSet k v m))"
proof (induction m)
  case Nil
  then show ?case by simp
next
  case (Cons a m)
  then show ?case using fst_set_mapSet[of k v m] by (cases a) (auto simp: image_iff)
qed

lemma length_mapSet: "length (mapSet k v m) \<le> Suc (length m)"
  by (induction k v m rule: mapSet.induct) auto

lemma keysOk_mapSet: "keysOk m \<Longrightarrow> branchUci v = k \<Longrightarrow> keysOk (mapSet k v m)"
  unfolding keysOk_def using set_mapSet_subset[of k v m] distinct_mapSet[of m k v] by auto

lemma keysOk_fold_byBranch:
  "keysOk m \<Longrightarrow> keysOk (fold (\<lambda>line m. mapSet (branchUci line) line m) xs m)"
  by (induction xs arbitrary: m) (simp_all add: keysOk_mapSet)

lemma keysOk_byBranchOf: "keysOk (byBranchOf xs)"
  unfolding byBranchOf_def by (rule keysOk_fold_byBranch) (simp add: keysOk_def)

lemma length_fold_byBranch:
  "length (fold (\<lambda>line m. mapSet (branchUci line) line m) xs m) \<le> length m + length xs"
proof (induction xs arbitrary: m)
  case Nil
  then show ?case by simp
next
  case (Cons x xs)
  show ?case using Cons[of "mapSet (branchUci x) x m"] length_mapSet[of "branchUci x" x m] by simp
qed

lemma length_byBranchOf: "length (byBranchOf xs) \<le> length xs"
  unfolding byBranchOf_def using length_fold_byBranch[of xs "[]"] by simp

lemma set_fold_byBranch:
  "snd ` set (fold (\<lambda>line m. mapSet (branchUci line) line m) xs m) \<subseteq> snd ` set m \<union> set xs"
proof (induction xs arbitrary: m)
  case Nil
  then show ?case by simp
next
  case (Cons x xs)
  have "snd ` set (mapSet (branchUci x) x m) \<subseteq> insert x (snd ` set m)"
    using set_mapSet_subset[of "branchUci x" x m] by (metis image_insert image_mono snd_conv)
  with Cons[of "mapSet (branchUci x) x m"] show ?case by auto
qed

lemma set_byBranchOf: "snd ` set (byBranchOf xs) \<subseteq> set xs"
  unfolding byBranchOf_def using set_fold_byBranch[of xs "[]"] by simp

lemma branchUci_candidateOfLine: "branchUci (candidateOfLine d line) = branchOfLine line"
  by (simp add: candidateOfLine_def)

lemma keysOk_mergeLine: "keysOk m \<Longrightarrow> keysOk (mergeLine d line m)"
  by (auto simp: mergeLine_def keysOk_mapSet branchUci_candidateOfLine split: option.splits)

lemma keysOk_fold_mergeLine: "keysOk m \<Longrightarrow> keysOk (fold (mergeLine d) ls m)"
  by (induction ls arbitrary: m) (simp_all add: keysOk_mergeLine)

lemma keysOk_lookup:
  assumes "keysOk m" and "v \<in> snd ` set m"
  shows "mapGet (branchUci v) m = Some v"
proof -
  from assms(2) obtain k where kv: "(k, v) \<in> set m" by auto
  with assms(1) have "k = branchUci v" by (auto simp: keysOk_def)
  with kv assms(1) show ?thesis by (simp add: mapGet_def keysOk_def)
qed

lemma mapGet_in_set: "mapGet k m = Some v \<Longrightarrow> v \<in> snd ` set m"
  by (auto simp: mapGet_def dest: map_of_SomeD intro: rev_image_eqI)

lemma mapGet_key: "keysOk m \<Longrightarrow> mapGet k m = Some v \<Longrightarrow> branchUci v = k"
  by (auto simp: mapGet_def keysOk_def dest: map_of_SomeD)

lemma storedCandidate_member:
  assumes "storedCandidate b xs = Some v"
  shows "v \<in> set xs \<and> branchUci v = b"
proof -
  from assms have g: "mapGet b (byBranchOf xs) = Some v" by (simp add: storedCandidate_def)
  from mapGet_in_set[OF g] set_byBranchOf[of xs] have "v \<in> set xs" by blast
  moreover from mapGet_key[OF keysOk_byBranchOf g] have "branchUci v = b" .
  ultimately show ?thesis by simp
qed

lemma map_of_fold_byBranch:
  "map_of (fold (\<lambda>line m. mapSet (branchUci line) line m) xs m)
     = map_of (rev (map (\<lambda>line. (branchUci line, line)) xs) @ m)"
proof (induction xs arbitrary: m)
  case Nil
  then show ?case by simp
next
  case (Cons x xs)
  show ?case
    by (simp add: Cons map_of_mapSet fun_eq_iff map_add_def split: option.splits)
qed

lemma storedCandidate_distinct:
  assumes "distinct (map branchUci xs)" and "v \<in> set xs"
  shows "storedCandidate (branchUci v) xs = Some v"
proof -
  let ?al = "rev (map (\<lambda>line. (branchUci line, line)) xs)"
  have d: "distinct (map fst ?al)"
    using assms(1) by (simp add: rev_map[symmetric] comp_def distinct_rev)
  have "(branchUci v, v) \<in> set ?al" using assms(2) by auto
  with d have "map_of ?al (branchUci v) = Some v" by (rule map_of_is_SomeI)
  then show ?thesis
    by (simp add: storedCandidate_def mapGet_def byBranchOf_def map_of_fold_byBranch)
qed

lemma keysOk_values_distinct: "keysOk m \<Longrightarrow> distinct (map branchUci (mapValues m))"
proof -
  assume k: "keysOk m"
  have "map branchUci (mapValues m) = map fst m"
    using k by (auto simp: keysOk_def mapValues_def)
  with k show ?thesis by (simp add: keysOk_def)
qed

lemma distinct_sortBy: "distinct (map f xs) \<Longrightarrow> distinct (map f (sortBy cmp xs))"
proof (induction xs)
  case Nil
  then show ?case by (simp add: sortBy_def)
next
  case (Cons x xs)
  have ins: "distinct (map f ys) \<Longrightarrow> f x \<notin> f ` set ys \<Longrightarrow> distinct (map f (insertBy cmp x ys))" for ys
    by (induction ys) (auto simp: set_insertBy)
  have "sortBy cmp (x # xs) = insertBy cmp x (sortBy cmp xs)" by (simp add: sortBy_def)
  then show ?case using Cons ins[of "sortBy cmp xs"] by (simp add: set_sortBy)
qed

lemma distinct_map_take: "distinct (map f xs) \<Longrightarrow> distinct (map f (take n xs))"
  by (simp add: take_map[symmetric] distinct_take)

lemma mergeLines_distinct: "distinct (map branchUci (mergeLines current d ls))"
  unfolding mergeLines_def
  by (intro distinct_map_take distinct_sortBy keysOk_values_distinct keysOk_fold_mergeLine keysOk_byBranchOf)

lemma candidate_depth_candidateOfLine: "candidate_depth (candidateOfLine d line) = d"
  by (simp add: candidateOfLine_def)

lemma candidate_rank_candidateOfLine: "candidate_rank (candidateOfLine d line) = rank line"
  by (simp add: candidateOfLine_def)

lemma mergeLine_stored:
  assumes "mapGet b m = Some x" and "replacedBy d ls e x" and "line \<in> set ls"
  shows "\<exists>x'. mapGet b (mergeLine d line m) = Some x' \<and> replacedBy d ls e x'"
proof (cases "branchOfLine line = b \<and> b \<noteq> []")
  case False
  then have "mapGet b (mergeLine d line m) = mapGet b m"
    by (auto simp: mergeLine_def mapGet_mapSet split: option.splits)
  with assms show ?thesis by simp
next
  case True
  show ?thesis
  proof (cases "d > candidate_depth x \<or> (d = candidate_depth x \<and> rank line < candidate_rank x)")
    case False
    with True assms have "mergeLine d line m = m" by (auto simp: mergeLine_def)
    with assms show ?thesis by simp
  next
    case c: True
    with True assms have "mapGet b (mergeLine d line m) = Some (candidateOfLine d line)"
      by (auto simp: mergeLine_def mapGet_mapSet)
    moreover have "replacedBy d ls e (candidateOfLine d line)"
      using c assms(2,3) unfolding replacedBy_def
      by (auto simp: candidate_depth_candidateOfLine candidate_rank_candidateOfLine)
    ultimately show ?thesis by simp
  qed
qed

lemma fold_mergeLine_stored:
  "mapGet b m = Some x \<Longrightarrow> replacedBy d ls e x \<Longrightarrow> set ls' \<subseteq> set ls \<Longrightarrow>
   \<exists>x'. mapGet b (fold (mergeLine d) ls' m) = Some x' \<and> replacedBy d ls e x'"
proof (induction ls' arbitrary: m x)
  case Nil
  then show ?case by simp
next
  case (Cons line ls')
  from Cons.prems(3) have l: "line \<in> set ls" and s: "set ls' \<subseteq> set ls" by simp_all
  from mergeLine_stored[OF Cons.prems(1,2) l] obtain x' where
    "mapGet b (mergeLine d line m) = Some x'" "replacedBy d ls e x'" by blast
  from Cons.IH[OF this s] show ?case by simp
qed

lemma mergeLine_keeps_deeper:
  assumes "mapGet b m = Some e" and "d < candidate_depth e"
  shows "mapGet b (mergeLine d line m) = Some e"
  using assms by (auto simp: mergeLine_def mapGet_mapSet split: option.splits)

lemma fold_mergeLine_keeps_deeper:
  "mapGet b m = Some e \<Longrightarrow> d < candidate_depth e \<Longrightarrow> mapGet b (fold (mergeLine d) ls m) = Some e"
  by (induction ls arbitrary: m) (simp_all add: mergeLine_keeps_deeper)

lemma snd_set_mapSet: "snd ` set (mapSet k v m) \<subseteq> insert v (snd ` set m)"
  by (induction k v m rule: mapSet.induct) auto

lemma mergeLine_cases:
  "mergeLine d line m = m \<or>
   mergeLine d line m = mapSet (branchOfLine line) (candidateOfLine d line) m"
  by (simp add: mergeLine_def split: option.splits)

lemma mergeLine_entries:
  "snd ` set (mergeLine d line m) \<subseteq> snd ` set m \<union> {c. candidate_depth c = d}"
proof
  fix c
  assume c: "c \<in> snd ` set (mergeLine d line m)"
  show "c \<in> snd ` set m \<union> {c. candidate_depth c = d}"
  proof (cases "mergeLine d line m = m")
    case True
    with c show ?thesis by simp
  next
    case False
    with mergeLine_cases[of d line m]
    have "mergeLine d line m = mapSet (branchOfLine line) (candidateOfLine d line) m" by simp
    with c have "c \<in> snd ` set (mapSet (branchOfLine line) (candidateOfLine d line) m)" by simp
    from subsetD[OF snd_set_mapSet this] have "c = candidateOfLine d line \<or> c \<in> snd ` set m"
      by simp
    moreover have "candidate_depth (candidateOfLine d line) = d" by (simp add: candidateOfLine_def)
    ultimately show ?thesis by (elim disjE) simp_all
  qed
qed

lemma fold_mergeLine_entries:
  "snd ` set (fold (mergeLine d) ls m) \<subseteq> snd ` set m \<union> {c. candidate_depth c = d}"
proof (induction ls arbitrary: m)
  case Nil
  then show ?case by simp
next
  case (Cons line ls)
  have "snd ` set (fold (mergeLine d) (line # ls) m)
          \<subseteq> snd ` set (mergeLine d line m) \<union> {c. candidate_depth c = d}"
    using Cons[of "mergeLine d line m"] by simp
  also have "\<dots> \<subseteq> snd ` set m \<union> {c. candidate_depth c = d}"
    using mergeLine_entries[of d line m] by (simp add: le_supI1)
  finally show ?case .
qed

lemma take_keeps_leading:
  assumes "sorted_wrt depthThenRank ys" and "e \<in> set ys"
    and "length (filter (\<lambda>y. depthThenRank y e) ys) \<le> n"
  shows "e \<in> set (take n ys)"
  using assms
proof (induction ys arbitrary: n)
  case Nil
  then show ?case by simp
next
  case (Cons y ys)
  show ?case
  proof (cases "e = y")
    case True
    with Cons.prems(3) have "0 < n" by (simp add: depthThenRank_refl)
    then obtain n' where "n = Suc n'" by (cases n) auto
    with True show ?thesis by simp
  next
    case False
    with Cons.prems have e: "e \<in> set ys" and ye: "depthThenRank y e" by auto
    with Cons.prems(3) have "Suc (length (filter (\<lambda>y. depthThenRank y e) ys)) \<le> n" by simp
    then obtain n' where n: "n = Suc n'" and le: "length (filter (\<lambda>y. depthThenRank y e) ys) \<le> n'"
      by (cases n) auto
    from Cons.prems(1) have "sorted_wrt depthThenRank ys" by simp
    from Cons.IH[OF this e le] n show ?thesis by simp
  qed
qed

lemma deeper_entry_survives:
  assumes "length current \<le> 10" and "storedCandidate b current = Some e"
    and "d < candidate_depth e"
  shows "storedCandidate b (mergeLines current d ls) = Some e"
proof -
  let ?init = "byBranchOf current"
  let ?m = "fold (mergeLine d) ls ?init"
  let ?vs = "mapValues ?m"
  let ?P = "\<lambda>y. depthThenRank y e"
  have k: "keysOk ?m" by (intro keysOk_fold_mergeLine keysOk_byBranchOf)
  have g: "mapGet b ?m = Some e"
    using assms(2,3) by (simp add: storedCandidate_def fold_mergeLine_keeps_deeper)
  have be: "branchUci e = b" using mapGet_key[OF k g] .
  have ein: "e \<in> set ?vs" using mapGet_in_set[OF g] by (simp add: mapValues_def)
  have dist: "distinct ?vs"
    using keysOk_values_distinct[OF k] by (rule distinct_map[THEN iffD1, THEN conjunct1])
  have sub: "set (filter ?P ?vs) \<subseteq> snd ` set ?init"
  proof
    fix y assume "y \<in> set (filter ?P ?vs)"
    then have y: "y \<in> snd ` set ?m" and "depthThenRank y e" by (auto simp: mapValues_def)
    then have "candidate_depth y \<noteq> d" using assms(3) by (auto simp: depthThenRank_def)
    with y fold_mergeLine_entries[of d ls ?init] show "y \<in> snd ` set ?init" by auto
  qed
  have d2: "distinct (filter ?P ?vs)" using dist by simp
  have "length (filter ?P ?vs) = card (set (filter ?P ?vs))"
    using distinct_card[OF d2] by (rule sym)
  also have "\<dots> \<le> card (snd ` set ?init)" using sub by (intro card_mono) auto
  also have "\<dots> \<le> card (set ?init)" by (rule card_image_le) simp
  also have "\<dots> \<le> length ?init" by (rule card_length)
  also have "\<dots> \<le> 10" using length_byBranchOf[of current] assms(1) by simp
  finally have cnt: "length (filter ?P (sortBy compareCandidates ?vs)) \<le> 10"
    by (simp add: filter_sortBy_length)
  have "e \<in> set (take 10 (sortBy compareCandidates ?vs))"
    by (rule take_keeps_leading[OF sorted_sortBy _ cnt]) (simp add: set_sortBy ein)
  then have "e \<in> set (mergeLines current d ls)" by (simp add: mergeLines_def)
  from storedCandidate_distinct[OF mergeLines_distinct this] be show ?thesis by simp
qed

lemma replaced_only_if:
  assumes "storedCandidate b current = Some e"
    and "storedCandidate b (mergeLines current d ls) = Some e'"
  shows "replacedBy d ls e e'"
proof -
  let ?m = "fold (mergeLine d) ls (byBranchOf current)"
  have k: "keysOk ?m" by (intro keysOk_fold_mergeLine keysOk_byBranchOf)
  from assms(1) have g0: "mapGet b (byBranchOf current) = Some e" by (simp add: storedCandidate_def)
  have "replacedBy d ls e e" by (simp add: replacedBy_def)
  from fold_mergeLine_stored[OF g0 this subset_refl] obtain x where
    x: "mapGet b ?m = Some x" and r: "replacedBy d ls e x" by blast
  from storedCandidate_member[OF assms(2)] have "e' \<in> set (mergeLines current d ls)" and b: "branchUci e' = b"
    by simp_all
  then have "e' \<in> set (mapValues ?m)"
    by (auto simp: mergeLines_def set_sortBy dest: in_set_takeD)
  then have "e' \<in> snd ` set ?m" by (simp add: mapValues_def)
  from keysOk_lookup[OF k this] b x have "e' = x" by simp
  with r show ?thesis by simp
qed

text \<open>
  Claim C3 (a stored candidate is replaced only by a deeper or better-ranked report). Let
  \<open>e\<close> be the candidate stored for branch \<open>b\<close> and let a depth-kind report \<open>p\<close> be merged. If
  the candidate stored for \<open>b\<close> afterwards is a different one, then it is the candidate of one of
  the report's lines, and the report's depth is strictly greater than \<open>e\<close>'s, or equal to it
  with the new candidate's rank strictly lower than \<open>e\<close>'s. In particular, after a merge of a
  report \<open>p1\<close>, an entry \<open>e\<close> stored for \<open>b\<close> is still the stored entry after merging any report
  \<open>p\<close> of a depth below \<open>e\<close>'s, so a depth-\<open>D\<close> entry is unchanged by a following report at
  depth \<open>D - 1\<close>.
\<close>

theorem merge_replaces_only_deeper_or_better_ranked:
  assumes "isDepthLikeEvent p"
  shows "(storedCandidate b current = Some e \<and>
          storedCandidate b (mergeCandidateStockfishLines current p) = Some e' \<and> e' \<noteq> e \<longrightarrow>
            (\<exists>line \<in> set (lines p). e' = candidateOfLine (stockfishDepthOfEvent p) line) \<and>
            (stockfishDepthOfEvent p > candidate_depth e \<or>
             (stockfishDepthOfEvent p = candidate_depth e \<and> candidate_rank e' < candidate_rank e))) \<and>
         (isDepthLikeEvent p1 \<and>
          storedCandidate b (mergeCandidateStockfishLines current p1) = Some e \<and>
          stockfishDepthOfEvent p < candidate_depth e \<longrightarrow>
            storedCandidate b
              (mergeCandidateStockfishLines (mergeCandidateStockfishLines current p1) p) = Some e)"
proof -
  have m: "mergeCandidateStockfishLines c p = mergeLines c (stockfishDepthOfEvent p) (lines p)" for c
    using assms by (cases p) simp_all
  have one: "storedCandidate b current = Some e \<Longrightarrow>
     storedCandidate b (mergeCandidateStockfishLines current p) = Some e' \<Longrightarrow> e' \<noteq> e \<Longrightarrow>
     (\<exists>line \<in> set (lines p). e' = candidateOfLine (stockfishDepthOfEvent p) line) \<and>
     (stockfishDepthOfEvent p > candidate_depth e \<or>
       (stockfishDepthOfEvent p = candidate_depth e \<and> candidate_rank e' < candidate_rank e))"
    using replaced_only_if[of b current e "stockfishDepthOfEvent p" "lines p" e']
    unfolding m replacedBy_def by blast
  have two: "isDepthLikeEvent p1 \<Longrightarrow>
     storedCandidate b (mergeCandidateStockfishLines current p1) = Some e \<Longrightarrow>
     stockfishDepthOfEvent p < candidate_depth e \<Longrightarrow>
     storedCandidate b (mergeCandidateStockfishLines (mergeCandidateStockfishLines current p1) p) = Some e"
  proof -
    assume p1: "isDepthLikeEvent p1"
      and st: "storedCandidate b (mergeCandidateStockfishLines current p1) = Some e"
      and lt: "stockfishDepthOfEvent p < candidate_depth e"
    have "length (mergeCandidateStockfishLines current p1) \<le> 10"
      using merge_bound_sorted[OF p1] by simp
    from deeper_entry_survives[OF this st lt] show ?thesis by (simp add: m)
  qed
  from one two show ?thesis by blast
qed


theorem merge_replaces_only_deeper_or_better_ranked_witness:
  "(stockfishDepthOfEvent (sampleDepthEvent 9 [sampleLine 2 ''e2e4''])
      > candidate_depth (candidateOfLine 8 (sampleLine 1 ''e2e4'')) \<or>
    (stockfishDepthOfEvent (sampleDepthEvent 9 [sampleLine 2 ''e2e4''])
      = candidate_depth (candidateOfLine 8 (sampleLine 1 ''e2e4'')) \<and>
     candidate_rank (candidateOfLine 9 (sampleLine 2 ''e2e4''))
      < candidate_rank (candidateOfLine 8 (sampleLine 1 ''e2e4'')))) \<and>
   storedCandidate (js ''e2e4'')
     (mergeCandidateStockfishLines
        (mergeCandidateStockfishLines
           (mergeCandidateStockfishLines [] (sampleDepthEvent 8 [sampleLine 1 ''e2e4'']))
           (sampleDepthEvent 9 [sampleLine 2 ''e2e4'']))
        (sampleDepthEvent 8 [sampleLine 1 ''e2e4'', sampleLine 2 ''d2d4'']))
     = Some (candidateOfLine 9 (sampleLine 2 ''e2e4''))"
proof -
  let ?p8 = "sampleDepthEvent 8 [sampleLine 1 ''e2e4'']"
  let ?p9 = "sampleDepthEvent 9 [sampleLine 2 ''e2e4'']"
  let ?q8 = "sampleDepthEvent 8 [sampleLine 1 ''e2e4'', sampleLine 2 ''d2d4'']"
  let ?e8 = "candidateOfLine 8 (sampleLine 1 ''e2e4'')"
  let ?e9 = "candidateOfLine 9 (sampleLine 2 ''e2e4'')"
  let ?cur = "mergeCandidateStockfishLines [] ?p8"
  have d9: "isDepthLikeEvent ?p9" and d8: "isDepthLikeEvent ?q8"
    by (simp_all add: sampleDepthEvent_def)
  have s0: "storedCandidate (js ''e2e4'') ?cur = Some ?e8"
    by code_simp
  have s1: "storedCandidate (js ''e2e4'') (mergeCandidateStockfishLines ?cur ?p9) = Some ?e9"
    by code_simp
  have ne: "?e9 \<noteq> ?e8"
    by (simp add: candidateOfLine_def)
  have lt: "stockfishDepthOfEvent ?q8 < candidate_depth ?e9"
    by (simp add: stockfishDepthOfEvent_def sampleDepthEvent_def candidateOfLine_def)
  from merge_replaces_only_deeper_or_better_ranked[OF d9, of "js ''e2e4''" ?cur ?e8 ?e9] s0 s1 ne
  have one: "stockfishDepthOfEvent ?p9 > candidate_depth ?e8 \<or>
             (stockfishDepthOfEvent ?p9 = candidate_depth ?e8 \<and>
              candidate_rank ?e9 < candidate_rank ?e8)"
    by blast
  from merge_replaces_only_deeper_or_better_ranked[OF d8, of "js ''e2e4''" ?cur ?e9 _ ?p9] d9 s1 lt
  have two: "storedCandidate (js ''e2e4'')
               (mergeCandidateStockfishLines (mergeCandidateStockfishLines ?cur ?p9) ?q8) = Some ?e9"
    by blast
  from one two show ?thesis by (rule conjI)
qed

text \<open>
  Claim C4 (the merged set is capped and sorted). Whatever set the session has accumulated and
  whatever calls came before, the set returned by a merge call holds at most 10 entries and is
  sorted by descending depth, ties broken by ascending rank. This holds after every call of
  every sequence of calls, also when the calls report 11 or more distinct branches.
\<close>

theorem merged_set_capped_and_sorted:
  assumes "isDepthLikeEvent p"
  shows "length (foldl mergeCandidateStockfishLines current (ps @ [p])) \<le> 10 \<and>
         sorted_wrt depthThenRank (foldl mergeCandidateStockfishLines current (ps @ [p]))"
  using merge_bound_sorted[OF assms, of "foldl mergeCandidateStockfishLines current ps"] by simp

theorem merged_set_capped_and_sorted_witness:
  "length (foldl mergeCandidateStockfishLines []
            ([sampleDepthEvent 8 (map (sampleLine 1) (take 6 sampleMoves))] @
             [sampleDepthEvent 9 (map (sampleLine 2) (drop 6 sampleMoves))])) \<le> 10 \<and>
   sorted_wrt depthThenRank
     (foldl mergeCandidateStockfishLines []
        ([sampleDepthEvent 8 (map (sampleLine 1) (take 6 sampleMoves))] @
         [sampleDepthEvent 9 (map (sampleLine 2) (drop 6 sampleMoves))])) \<and>
   map branchUci
     (foldl mergeCandidateStockfishLines []
        ([sampleDepthEvent 8 (map (sampleLine 1) (take 6 sampleMoves))] @
         [sampleDepthEvent 9 (map (sampleLine 2) (drop 6 sampleMoves))]))
     = map js [''g2g3'', ''h2h3'', ''a2a4'', ''b2b4'', ''c2c4'', ''a2a3'', ''b2b3'', ''c2c3'',
               ''d2d3'', ''e2e3'']"
proof -
  let ?p = "sampleDepthEvent 9 (map (sampleLine 2) (drop 6 sampleMoves))"
  have d: "isDepthLikeEvent ?p" by (simp add: sampleDepthEvent_def)
  have b: "map branchUci
     (foldl mergeCandidateStockfishLines []
        ([sampleDepthEvent 8 (map (sampleLine 1) (take 6 sampleMoves))] @ [?p]))
     = map js [''g2g3'', ''h2h3'', ''a2a4'', ''b2b4'', ''c2c4'', ''a2a3'', ''b2b3'', ''c2c3'',
               ''d2d3'', ''e2e3'']"
    by code_simp
  from merged_set_capped_and_sorted[OF d, of "[]"
         "[sampleDepthEvent 8 (map (sampleLine 1) (take 6 sampleMoves))]"] b
  show ?thesis by blast
qed

section \<open>Properties of the Frame Decoder\<close>

text \<open>
  Claim C2 (chunk-boundary invariance) at the input \<open>data:x\r\r\n\n\<close>, a frame whose data
  ends in a carriage return. Decoded in one call, the text is normalised once: the frame
  emitted carries the data \<open>x\r\<close>. Fed as the two chunks \<open>data:x\r\r\n\<close> and \<open>\n\<close>, the
  first call returns the normalised remainder \<open>data:x\r\n\<close>, and the second call normalises
  it again together with the new chunk: the frame emitted carries the data \<open>x\<close>. The two
  ways of feeding the same text emit different frames.
\<close>

theorem chunked_decoding_renormalizes_remainder:
  "fst (emitBufferedEvents (concat [js ''data:x'' @ [13, 13, 10], [10]]))
     = [(js ''message'', js ''x'' @ [13])] \<and>
   fst (feedChunks [] [js ''data:x'' @ [13, 13, 10], [10]])
     = [(js ''message'', js ''x'')] \<and>
   emitBufferedEvents (js ''data:x'' @ [13, 13, 10]) = ([], js ''data:x'' @ [13, 10])"
  by code_simp

text \<open>
  On chunks without carriage returns the normalisation changes nothing, however often it is
  applied, and feeding the chunks one after the other emits the frames of the whole text, in
  the same order, and leaves the same remainder.
\<close>

lemma normalizeNewlines_without_cr: "13 \<notin> set s \<Longrightarrow> normalizeNewlines s = s"
  by (induction s rule: normalizeNewlines.induct) auto

lemma splitAtBlankLine_append:
  "splitAtBlankLine a = Some (block, after) \<Longrightarrow>
   splitAtBlankLine (a @ b) = Some (block, after @ b)"
  by (induction a arbitrary: block rule: splitAtBlankLine.induct)
     (auto split: if_splits)

lemma splitAtBlankLine_subset:
  "splitAtBlankLine w = Some (block, after) \<Longrightarrow> set after \<subseteq> set w"
  by (induction w arbitrary: block rule: splitAtBlankLine.induct)
     (auto split: if_splits)

lemma emitLoop_remainder_subset: "set (snd (emitLoop w)) \<subseteq> set w"
proof (induction w rule: emitLoop.induct)
  case (1 working)
  show ?case
  proof (cases "splitAtBlankLine working")
    case None
    then show ?thesis by (subst emitLoop.simps) simp
  next
    case (Some ba)
    obtain block after where ba: "ba = (block, after)" by (cases ba)
    from 1[OF Some ba[symmetric]] have "set (snd (emitLoop after)) \<subseteq> set after" .
    moreover from Some ba have "set after \<subseteq> set working" by (simp add: splitAtBlankLine_subset)
    moreover have "snd (emitLoop working) = snd (emitLoop after)"
      by (subst emitLoop.simps) (simp add: Some ba split: prod.splits)
    ultimately show ?thesis by simp
  qed
qed

lemma emitLoop_append:
  "emitLoop (a @ b) =
     (fst (emitLoop a) @ fst (emitLoop (snd (emitLoop a) @ b)),
      snd (emitLoop (snd (emitLoop a) @ b)))"
proof (induction a rule: emitLoop.induct)
  case (1 working)
  show ?case
  proof (cases "splitAtBlankLine working")
    case None
    then have "emitLoop working = ([], working)" by (subst emitLoop.simps) simp
    then show ?thesis by simp
  next
    case (Some ba)
    obtain block after where ba: "ba = (block, after)" by (cases ba)
    note ih = 1[OF Some ba[symmetric]]
    have w: "emitLoop working =
               ((case parseSseEventBlock block of None \<Rightarrow> [] | Some f \<Rightarrow> [f]) @ fst (emitLoop after),
                snd (emitLoop after))"
      by (subst emitLoop.simps) (simp add: Some ba split: prod.splits)
    from Some ba have "splitAtBlankLine (working @ b) = Some (block, after @ b)"
      by (simp add: splitAtBlankLine_append)
    then have wb: "emitLoop (working @ b) =
               ((case parseSseEventBlock block of None \<Rightarrow> [] | Some f \<Rightarrow> [f]) @ fst (emitLoop (after @ b)),
                snd (emitLoop (after @ b)))"
      by (subst emitLoop.simps) (simp split: prod.splits)
    show ?thesis unfolding wb w by (subst ih, simp)+
  qed
qed

lemma feedChunks_without_cr:
  assumes "13 \<notin> set buf" and "\<forall>c \<in> set chunks. 13 \<notin> set c"
  shows "fst (emitLoop buf) @ fst (feedChunks (snd (emitLoop buf)) chunks)
           = fst (emitLoop (buf @ concat chunks)) \<and>
         snd (feedChunks (snd (emitLoop buf)) chunks) = snd (emitLoop (buf @ concat chunks))"
  using assms
proof (induction chunks arbitrary: buf)
  case Nil
  then show ?case by simp
next
  case (Cons c cs)
  let ?r = "snd (emitLoop buf)"
  have r: "13 \<notin> set ?r" using Cons.prems(1) emitLoop_remainder_subset[of buf] by blast
  then have rc: "13 \<notin> set (?r @ c)" using Cons.prems(2) by simp
  then have e: "emitBufferedEvents (?r @ c) = emitLoop (?r @ c)"
    by (simp add: emitBufferedEvents_def normalizeNewlines_without_cr)
  from Cons.prems(2) have cs: "\<forall>c \<in> set cs. 13 \<notin> set c" by simp
  note ih = Cons.IH[OF rc cs]
  have f: "feedChunks ?r (c # cs) =
             (fst (emitLoop (?r @ c)) @ fst (feedChunks (snd (emitLoop (?r @ c))) cs),
              snd (feedChunks (snd (emitLoop (?r @ c))) cs))"
    by (simp add: e split: prod.splits)
  have a: "emitLoop (buf @ concat (c # cs)) =
             (fst (emitLoop buf) @ fst (emitLoop (?r @ c @ concat cs)),
              snd (emitLoop (?r @ c @ concat cs)))"
    using emitLoop_append[of buf "c @ concat cs"] by simp
  show ?case unfolding f a using ih by simp
qed

lemma emitLoop_Nil: "emitLoop [] = ([], [])"
  by (subst emitLoop.simps) simp

lemma chunked_decoding_without_carriage_returns:
  assumes "\<forall>c \<in> set chunks. 13 \<notin> set c"
  shows "feedChunks [] chunks = emitBufferedEvents (concat chunks)"
proof -
  have n: "13 \<notin> set (concat chunks)" using assms by auto
  have "13 \<notin> set ([] :: jstring)" by simp
  from feedChunks_without_cr[OF this assms] show ?thesis
    by (simp add: emitLoop_Nil emitBufferedEvents_def normalizeNewlines_without_cr[OF n]
          prod_eq_iff)
qed

section \<open>Properties of the Authenticated Stream Transport\<close>

text \<open>
  Claim C5 (one terminal callback per handle) at the run in which the request fails and the
  consumer then closes the handle. The \<open>catch\<close> block delivers \<open>onError\<close> and leaves the
  \<open>closed\<close> flag unset, unlike the end of the read loop, which sets it before it delivers
  \<open>onClose\<close>. So the later \<open>close\<close> still finds the handle open and delivers \<open>onClose\<close>: this
  handle delivers both terminal callbacks. After a normal end of the stream the same \<open>close\<close>
  delivers nothing more.
\<close>

theorem error_then_close_delivers_both_terminal_callbacks:
  "delivered (runHandle openAuthenticatedSse
                [FetchRejected (Some (js ''Failed to fetch'')), CloseCalled])
     = [OnError (js ''Failed to fetch''), OnClose] \<and>
   delivered (runHandle openAuthenticatedSse
                [FetchResolved True (js ''200 OK'') True, ReadResolved True None, CloseCalled])
     = [OnOpen, OnClose]"
  by code_simp

text \<open>
  The part of Claim C5 that the code keeps: once \<open>close\<close> has been called, the handle is
  aborted for good, and nothing that happens later is delivered through \<open>onError\<close>.
\<close>

lemma aborted_runStep: "aborted h \<Longrightarrow> aborted (runStep h x)"
  by (cases x)
     (auto simp: close_def catchError_def afterLoop_def loopHead_def deliver_def Let_def
           split: RunPhase.splits option.splits prod.splits)

lemma delivered_runStep_aborted:
  "aborted h \<Longrightarrow> \<exists>cbs. delivered (runStep h x) = delivered h @ cbs \<and> (\<forall>m. OnError m \<notin> set cbs)"
  by (cases x)
     (auto simp: close_def catchError_def afterLoop_def loopHead_def deliver_def Let_def
           split: RunPhase.splits option.splits prod.splits)

lemma no_onError_once_aborted:
  "aborted h \<Longrightarrow>
   \<exists>cbs. delivered (runHandle h xs) = delivered h @ cbs \<and> (\<forall>m. OnError m \<notin> set cbs)"
proof (induction xs arbitrary: h)
  case Nil
  then show ?case by (simp add: runHandle_def)
next
  case (Cons x xs)
  from delivered_runStep_aborted[OF Cons.prems, of x] obtain c1 where
    c1: "delivered (runStep h x) = delivered h @ c1" "\<forall>m. OnError m \<notin> set c1" by blast
  from Cons.IH[OF aborted_runStep[OF Cons.prems, of x]] obtain c2 where
    c2: "delivered (runHandle (runStep h x) xs) = delivered (runStep h x) @ c2"
        "\<forall>m. OnError m \<notin> set c2" by blast
  have "runHandle h (x # xs) = runHandle (runStep h x) xs" by (simp add: runHandle_def)
  with c1 c2 have "delivered (runHandle h (x # xs)) = delivered h @ (c1 @ c2)" by simp
  moreover from c1 c2 have "\<forall>m. OnError m \<notin> set (c1 @ c2)" by simp
  ultimately show ?case by blast
qed

lemma close_aborts: "\<not> handle_closed h \<Longrightarrow> aborted (close h) \<and> handle_closed (close h)"
  by (simp add: close_def deliver_def)

text \<open>
  While \<open>close\<close> is not called, the handle does deliver at most one terminal callback: the
  second one of the run above needs the call of \<open>close\<close> after the error.
\<close>

lemma filter_isTerminal_events: "filter isTerminal (map (\<lambda>(n, d). OnEvent n d) fs) = []"
  by (induction fs) auto

lemma undisturbed_runStep:
  "undisturbed h \<Longrightarrow> x \<noteq> CloseCalled \<Longrightarrow> undisturbed (runStep h x)"
  by (cases x)
     (auto simp: undisturbed_def terminalCount_def catchError_def afterLoop_def loopHead_def
           deliver_def Let_def filter_isTerminal_events
           split: RunPhase.splits option.splits prod.splits if_splits)

lemma undisturbed_runHandle:
  "undisturbed h \<Longrightarrow> CloseCalled \<notin> set xs \<Longrightarrow> undisturbed (runHandle h xs)"
proof (induction xs arbitrary: h)
  case Nil
  then show ?case by (simp add: runHandle_def)
next
  case (Cons x xs)
  from Cons.prems have "undisturbed (runStep h x)" by (intro undisturbed_runStep) auto
  from Cons.IH[OF this] Cons.prems(2) show ?case by (simp add: runHandle_def)
qed

lemma one_terminal_callback_without_close:
  "CloseCalled \<notin> set xs \<Longrightarrow> terminalCount (runHandle openAuthenticatedSse xs) \<le> 1"
proof -
  assume a: "CloseCalled \<notin> set xs"
  have "undisturbed openAuthenticatedSse"
    by (simp add: undisturbed_def terminalCount_def openAuthenticatedSse_def)
  from undisturbed_runHandle[OF this a] show ?thesis
    by (auto simp: undisturbed_def split: if_splits)
qed

section \<open>Properties of the Commentary Extractor: fences\<close>

lemma splitLines_nonempty: "splitLines s \<noteq> []"
  by (induction s) (auto split: list.splits)

lemma splitLines_append: "splitLines (x @ 10 # y) = splitLines x @ splitLines y"
proof (induction x)
  case Nil
  then show ?case by simp
next
  case (Cons c x)
  show ?case
  proof (cases "c = 10")
    case True
    then show ?thesis using Cons by simp
  next
    case False
    obtain l ls where l: "splitLines x = l # ls"
      using splitLines_nonempty[of x] by (cases "splitLines x") auto
    with False Cons show ?thesis by simp
  qed
qed

lemma splitLines_single: "10 \<notin> set s \<Longrightarrow> splitLines s = [s]"
  by (induction s) auto

lemma joinLines_append1: "ls \<noteq> [] \<Longrightarrow> joinLines (l # ls) = l @ 10 # joinLines ls"
  by (cases ls) auto

lemma joinLines_splitLines: "joinLines (splitLines s) = s"
proof (induction s)
  case Nil
  then show ?case by simp
next
  case (Cons c s)
  obtain l ls where l: "splitLines s = l # ls"
    using splitLines_nonempty[of s] by (cases "splitLines s") auto
  show ?case
  proof (cases "c = 10")
    case True
    then show ?thesis using Cons splitLines_nonempty[of s] by (simp add: joinLines_append1)
  next
    case False
    then show ?thesis using Cons l by (cases ls) auto
  qed
qed

lemma trim_Nil_iff: "trim s = [] \<longleftrightarrow> (\<forall>c \<in> set s. isWhiteSpaceUnit c)"
proof
  assume "trim s = []"
  then have a: "\<forall>c \<in> set (dropWhile isWhiteSpaceUnit s). isWhiteSpaceUnit c"
    by (simp add: trim_def dropWhile_eq_Nil_conv)
  have "dropWhile isWhiteSpaceUnit s = []"
  proof (rule ccontr)
    assume n: "dropWhile isWhiteSpaceUnit s \<noteq> []"
    then have "\<not> isWhiteSpaceUnit (hd (dropWhile isWhiteSpaceUnit s))" by (rule hd_dropWhile)
    moreover from n have "hd (dropWhile isWhiteSpaceUnit s) \<in> set (dropWhile isWhiteSpaceUnit s)"
      by simp
    ultimately show False using a by blast
  qed
  then show "\<forall>c \<in> set s. isWhiteSpaceUnit c" by (simp add: dropWhile_eq_Nil_conv)
next
  assume "\<forall>c \<in> set s. isWhiteSpaceUnit c"
  then have d: "dropWhile isWhiteSpaceUnit s = []" by (simp add: dropWhile_eq_Nil_conv)
  show "trim s = []" unfolding trim_def d by simp
qed

lemma trim_edges:
  assumes "s \<noteq> []" and "\<not> isWhiteSpaceUnit (hd s)" and "\<not> isWhiteSpaceUnit (last s)"
  shows "trim s = s"
proof -
  from assms have "dropWhile isWhiteSpaceUnit s = s" by (cases s) auto
  moreover from assms have "dropWhile isWhiteSpaceUnit (rev s) = rev s"
    by (cases "rev s") (auto simp: last_rev[symmetric] hd_rev)
  ultimately show ?thesis by (simp add: trim_def)
qed

lemma length_fenceJsonMarker: "length fenceJsonMarker = 7"
  by (simp add: fenceJsonMarker_def js_def)

lemma length_fenceMarker: "length fenceMarker = 3"
  by (simp add: fenceMarker_def js_def)

lemma take_fenceJsonMarker: "take 3 fenceJsonMarker = fenceMarker"
  by (simp add: fenceJsonMarker_def fenceMarker_def js_def)

lemma startsWith_fenceJson:
  assumes "startsWith s fenceJsonMarker"
  shows "startsWith s fenceMarker"
proof -
  from assms have t: "take 7 s = fenceJsonMarker"
    unfolding startsWith_def length_fenceJsonMarker .
  have "take 3 s = take 3 (take 7 s)" by simp
  also have "\<dots> = fenceMarker" unfolding t by (rule take_fenceJsonMarker)
  finally show ?thesis unfolding startsWith_def length_fenceMarker .
qed

lemma containsFenceMarker_append: "containsFenceMarker b \<Longrightarrow> containsFenceMarker (a @ b)"
  by (induction a) auto

lemma startsWith_length: "startsWith a p \<Longrightarrow> length p \<le> length a"
proof -
  assume "startsWith a p"
  then have "length (take (length p) a) = length p" by (simp add: startsWith_def)
  then show ?thesis by simp
qed

lemma startsWith_append: "startsWith a p \<Longrightarrow> startsWith (a @ b) p"
  using startsWith_length[of a p] by (simp add: startsWith_def)

lemma removeAll_absent:
  "\<not> containsFenceMarker s \<Longrightarrow> (\<forall>t. startsWith t pat \<longrightarrow> startsWith t fenceMarker) \<Longrightarrow>
   removeAll pat s = s"
proof (induction s)
  case Nil
  then show ?case by (simp add: removeAll.simps)
next
  case (Cons c s)
  from Cons.prems have "\<not> startsWith (c # s) pat" by auto
  moreover from Cons.prems have "\<not> containsFenceMarker s" by simp
  ultimately show ?case using Cons by (simp add: removeAll.simps[of pat "c # s"])
qed

lemma removeAll_Nil: "removeAll pat [] = []"
  by (simp add: removeAll.simps)

lemma stripFenceMarkers_absent: "\<not> containsFenceMarker s \<Longrightarrow> stripFenceMarkers s = trim s"
  by (simp add: stripFenceMarkers_def removeAll_absent startsWith_fenceJson)

lemma trim_decomp:
  "\<exists>a w. s = a @ trim s @ w \<and> (\<forall>c \<in> set a. isWhiteSpaceUnit c) \<and> (\<forall>c \<in> set w. isWhiteSpaceUnit c)"
proof -
  let ?u = "dropWhile isWhiteSpaceUnit s"
  have 1: "s = takeWhile isWhiteSpaceUnit s @ ?u" by simp
  have "rev (takeWhile isWhiteSpaceUnit (rev ?u) @ dropWhile isWhiteSpaceUnit (rev ?u)) = rev (rev ?u)"
    by (simp only: takeWhile_dropWhile_id)
  then have "rev (dropWhile isWhiteSpaceUnit (rev ?u)) @ rev (takeWhile isWhiteSpaceUnit (rev ?u)) = ?u"
    by (simp only: rev_append rev_rev_ident)
  then have 2: "?u = trim s @ rev (takeWhile isWhiteSpaceUnit (rev ?u))"
    unfolding trim_def by (rule sym)
  have 3: "\<forall>c \<in> set (takeWhile isWhiteSpaceUnit s). isWhiteSpaceUnit c"
    by (auto dest: set_takeWhileD)
  have 4: "\<forall>c \<in> set (rev (takeWhile isWhiteSpaceUnit (rev ?u))). isWhiteSpaceUnit c"
    by (auto dest: set_takeWhileD)
  from 1 2 have "s = takeWhile isWhiteSpaceUnit s @ trim s @ rev (takeWhile isWhiteSpaceUnit (rev ?u))"
    by simp
  with 3 4 show ?thesis by blast
qed

lemma trim_no_fence:
  assumes "\<not> containsFenceMarker s"
  shows "\<not> startsWith (trim s) fenceMarker"
proof
  assume st: "startsWith (trim s) fenceMarker"
  from trim_decomp[of s] obtain a w where s: "s = a @ trim s @ w" by blast
  from st have "startsWith (trim s @ w) fenceMarker" by (rule startsWith_append)
  then have "containsFenceMarker (trim s @ w)"
    by (cases "trim s @ w") (auto simp: startsWith_def fenceMarker_def js_def)
  then have "containsFenceMarker (a @ trim s @ w)" by (rule containsFenceMarker_append)
  with s assms show False by simp
qed

lemma sanitize_plain:
  "\<not> containsFenceMarker s \<Longrightarrow>
   sanitizeCommentaryText s = (if trim s = [] then s else trim s)"
  by (simp add: sanitizeCommentaryText_def Let_def trim_no_fence stripFenceMarkers_absent)

lemma fenceMarker_eq: "fenceMarker = [96, 96, 96]"
  by (simp add: fenceMarker_def js_def)

lemma trim_fenceMarker: "trim fenceMarker = fenceMarker"
  by (simp add: fenceMarker_eq trim_def isWhiteSpaceUnit_def)

lemma trim_wrapInFence: "trim (wrapInFence lang text) = wrapInFence lang text"
  by (rule trim_edges) (simp_all add: wrapInFence_def fenceMarker_eq isWhiteSpaceUnit_def)

lemma splitLines_wrapInFence:
  assumes "10 \<notin> set lang"
  shows "splitLines (wrapInFence lang text) = (fenceMarker @ lang) # splitLines text @ [fenceMarker]"
proof -
  have a: "10 \<notin> set (fenceMarker @ lang)" using assms by (simp add: fenceMarker_eq)
  have b: "10 \<notin> set fenceMarker" by (simp add: fenceMarker_eq)
  have "wrapInFence lang text = (fenceMarker @ lang) @ 10 # (text @ 10 # fenceMarker)"
    by (simp add: wrapInFence_def)
  then show ?thesis
    by (simp only: splitLines_append splitLines_single[OF a] splitLines_single[OF b]) simp
qed

lemma sanitize_wrapped:
  assumes "10 \<notin> set lang"
  shows "sanitizeCommentaryText (wrapInFence lang text) = trim text"
proof -
  let ?w = "wrapInFence lang text"
  have ne: "?w \<noteq> []" by (simp add: wrapInFence_def fenceMarker_eq)
  have sw: "startsWith ?w fenceMarker"
    by (simp add: wrapInFence_def startsWith_def)
  have ls: "splitLines ?w = (fenceMarker @ lang) # splitLines text @ [fenceMarker]"
    using assms by (rule splitLines_wrapInFence)
  have len: "3 \<le> length (splitLines ?w)"
    using splitLines_nonempty[of "text"] unfolding ls by (cases "splitLines text") simp_all
  have la: "last (splitLines ?w) = fenceMarker" unfolding ls by simp
  have mid: "butlast (tl (splitLines ?w)) = splitLines text" unfolding ls by simp
  show ?thesis
    unfolding sanitizeCommentaryText_def Let_def trim_wrapInFence
    using ne sw len
    by (simp add: la mid trim_fenceMarker joinLines_splitLines)
qed

lemma scanStep_plain:
  "\<not> inString sc \<Longrightarrow> c \<noteq> 34 \<Longrightarrow> c \<noteq> 123 \<Longrightarrow> c \<noteq> 125 \<Longrightarrow> scanStep text i sc c = sc"
  by (simp add: scanStep_def)

lemma whitespace_plain: "isWhiteSpaceUnit c \<Longrightarrow> c \<noteq> 34 \<and> c \<noteq> 123 \<and> c \<noteq> 125 \<and> c \<noteq> 92"
  by (auto simp: isWhiteSpaceUnit_def)

lemma scanLoop_whitespace:
  "\<not> inString sc \<Longrightarrow> \<forall>c \<in> set s. isWhiteSpaceUnit c \<Longrightarrow> scanLoop text i sc s = sc"
  by (induction s arbitrary: i) (simp_all add: scanStep_plain whitespace_plain)

lemma candidatesOf_whitespace:
  assumes "trim s = []"
  shows "candidatesOf s = []"
proof -
  from assms have ws: "\<forall>c \<in> set s. isWhiteSpaceUnit c" by (simp add: trim_Nil_iff)
  have "normalizeCandidate s = []"
    using assms by (simp add: normalizeCandidate_def Let_def toLowerCase_def startsWith_def js_def)
  then have "pushCandidate [] s = []" by (simp add: pushCandidate_def)
  moreover have "extractJsonObjectCandidates s = []"
    by (simp add: extractJsonObjectCandidates_def scanLoop_whitespace[OF _ ws])
  ultimately show ?thesis by (simp add: candidatesOf_def)
qed

text \<open>
  Claim C8, as amended. For every text that contains no triple backtick, and so for every
  valid JSON commentary object none of whose strings contains one, extracting from the text
  wrapped in a closed fence (an opening line of three backticks and any tag, the text, a
  closing line of three backticks) returns what extracting from the text itself returns.
\<close>

theorem fenced_extraction_equals_plain:
  assumes "\<not> containsFenceMarker text" and "10 \<notin> set lang"
  shows "parseCommentaryStructuredFromText (wrapInFence lang text)
           = parseCommentaryStructuredFromText text"
proof (cases "trim text = []")
  case True
  then show ?thesis
    using assms
    by (simp add: parseCommentaryStructuredFromText_def sanitize_wrapped sanitize_plain
          candidatesOf_whitespace)
next
  case False
  then show ?thesis
    using assms
    by (simp add: parseCommentaryStructuredFromText_def sanitize_wrapped sanitize_plain)
qed


theorem fenced_extraction_equals_plain_witness:
  "parseCommentaryStructuredFromText
     (wrapInFence (js ''json'') (samplePlanText ''Open center'' ''[\"Develop\",\"Castle\"]''))
     = parseCommentaryStructuredFromText (samplePlanText ''Open center'' ''[\"Develop\",\"Castle\"]'') \<and>
   planTitleOf (parseCommentaryStructuredFromText
                  (samplePlanText ''Open center'' ''[\"Develop\",\"Castle\"]''))
     = Some (js ''Open center'')"
proof -
  have a: "\<not> containsFenceMarker (samplePlanText ''Open center'' ''[\"Develop\",\"Castle\"]'')"
    by code_simp
  have b: "10 \<notin> set (js ''json'')"
    by (simp add: js_def)
  have c: "planTitleOf (parseCommentaryStructuredFromText
                  (samplePlanText ''Open center'' ''[\"Develop\",\"Castle\"]''))
     = Some (js ''Open center'')"
    by code_simp
  from fenced_extraction_equals_plain[OF a b] c show ?thesis by (rule conjI)
qed

text \<open>
  Claim C8 as the specification states it fails on a valid commentary object one of whose
  strings contains a triple backtick. Here the title is \<open>Open ```center\<close>: inside a fence the
  text is taken as it is and the record's title is \<open>Open ```center\<close>; without the fence every
  triple backtick is removed from the text before it is parsed, and the record's title is
  \<open>Open center\<close>.
\<close>

theorem fenced_extraction_differs_counterexample:
  "\<not> (\<forall>text. isValidCommentaryJson text \<longrightarrow>
          parseCommentaryStructuredFromText (wrapInFence (js ''json'') text)
            = parseCommentaryStructuredFromText text)"
proof
  let ?t = "samplePlanText ''Open ```center'' ''[\"Develop\",\"Castle\"]''"
  assume h: "\<forall>text. isValidCommentaryJson text \<longrightarrow>
          parseCommentaryStructuredFromText (wrapInFence (js ''json'') text)
            = parseCommentaryStructuredFromText text"
  have v: "isValidCommentaryJson ?t"
    by code_simp
  have f: "planTitleOf (parseCommentaryStructuredFromText (wrapInFence (js ''json'') ?t))
             = Some (js ''Open ```center'')"
    by code_simp
  have u: "planTitleOf (parseCommentaryStructuredFromText ?t) = Some (js ''Open center'')"
    by code_simp
  from h v have "parseCommentaryStructuredFromText (wrapInFence (js ''json'') ?t)
                  = parseCommentaryStructuredFromText ?t" by blast
  with f u have "Some (js ''Open ```center'') = Some (js ''Open center'')" by simp
  then show False by (simp add: js_def)
qed

section \<open>Properties of the Commentary Extractor: malformed input\<close>

subsection \<open>Deleting code units the scanner does not react to\<close>






















subsection \<open>One step of the parser\<close>




























subsection \<open>Runs of the parser\<close>













subsection \<open>The extractor on a truncated object\<close>










subsection \<open>Validation\<close>






















end
